theory Spec2Isabelle
  imports Main "HOL-Library.Multiset" "HOL-Library.Word"
begin

unbundle bit_operations_syntax

section \<open>The Go values that ical.go computes with\<close>

text \<open>
  The program is one Go file, \<^verbatim>\<open>package main\<close>, present in two revisions. The
  development follows the current one (with \<^verbatim>\<open>parseEvent\<close>, the \<^verbatim>\<open>location\<close> field
  and failures that are logged). The earlier revision \<^verbatim>\<open>ical.go\<close>, in which the same
  loop sits inside \<^verbatim>\<open>queryEvents\<close> and a failure is returned to \<^verbatim>\<open>main\<close>, is not
  embedded: where the two agree (the fields of an occurrence, \<^verbatim>\<open>printEvent\<close> without the
  location, the \<^verbatim>\<open>switch\<close> of \<^verbatim>\<open>main\<close>) the definitions below read as either.

  A \<^verbatim>\<open>time.Duration\<close> is an int64 count of nanoseconds. It is an \<open>int\<close> here; the two
  operations of the program that can leave the int64 range (\<^verbatim>\<open>Time.Sub\<close>, which
  saturates, and the multiplication in \<^verbatim>\<open>main\<close>, which wraps) have that written out.
\<close>

type_synonym Duration = int

definition Second :: Duration where
  "Second = 1000000000"

definition Minute :: Duration where
  "Minute = 60 * Second"

definition Hour :: Duration where
  "Hour = 60 * Minute"

definition minDuration :: Duration where
  "minDuration = - (2 ^ 63)"

definition maxDuration :: Duration where
  "maxDuration = 2 ^ 63 - 1"

text \<open>
  A \<^verbatim>\<open>*time.Location\<close> maps an instant to the offset from UTC in force then: a base
  offset and the zone transitions, each the Unix second from which a new offset (in
  seconds east of UTC) holds, in increasing order of time.
\<close>

record Location =
  zoneBase :: int
  zoneTrans :: "(int \<times> int) list"

definition UTC :: Location where
  "UTC = \<lparr>zoneBase = 0, zoneTrans = []\<rparr>"

definition FixedZone :: "int \<Rightarrow> Location" where
  "FixedZone offset = \<lparr>zoneBase = offset, zoneTrans = []\<rparr>"

definition lookup :: "Location \<Rightarrow> int \<Rightarrow> int" where
  "lookup l sec = foldl (\<lambda>off (w, z). if w \<le> sec then z else off) (zoneBase l) (zoneTrans l)"

text \<open>
  A \<^verbatim>\<open>time.Time\<close> is an instant and the location it is shown in. The instant is the
  count of nanoseconds since the Unix epoch (Go keeps seconds and nanoseconds apart;
  the instants it can hold span far more than the int64 nanoseconds of a Duration).
\<close>

record Time =
  unixNano :: int
  loc :: Location

text \<open>The zero \<^verbatim>\<open>time.Time{}\<close>: January 1, year 1, 00:00:00 UTC.\<close>

definition zeroTime :: Time where
  "zeroTime = \<lparr>unixNano = - 62135596800 * Second, loc = UTC\<rparr>"

definition Before :: "Time \<Rightarrow> Time \<Rightarrow> bool" where
  "Before t u = (unixNano t < unixNano u)"

definition After :: "Time \<Rightarrow> Time \<Rightarrow> bool" where
  "After t u = (unixNano u < unixNano t)"

definition Compare :: "Time \<Rightarrow> Time \<Rightarrow> int" where
  "Compare t u = (if Before t u then - 1 else if After t u then 1 else 0)"

definition Add :: "Time \<Rightarrow> Duration \<Rightarrow> Time" where
  "Add t d = t\<lparr>unixNano := unixNano t + d\<rparr>"

text \<open>\<^verbatim>\<open>t.Sub(u)\<close>: the difference, or the nearest Duration when it does not fit one.\<close>

definition Sub :: "Time \<Rightarrow> Time \<Rightarrow> Duration" where
  "Sub t u =
     (let d = unixNano t - unixNano u
      in if d < minDuration then minDuration
         else if maxDuration < d then maxDuration
         else d)"

section \<open>The calendar objects handed over by go-ical and rrule-go\<close>

datatype error = Error string

text \<open>
  \<^verbatim>\<open>rrule.ROption\<close>: the anchor \<^verbatim>\<open>Dtstart\<close>, which \<^verbatim>\<open>parseEvent\<close> overwrites, and every
  other option of the rule, kept as the text of the RRULE property.
\<close>

record ROption =
  Dtstart :: Time
  RuleText :: string

text \<open>
  An \<^verbatim>\<open>ical.Event\<close>, as \<^verbatim>\<open>parseEvent\<close> sees it: what each accessor it calls returns, a
  Go pair of the value and the error (\<open>None\<close> is \<^verbatim>\<open>nil\<close>).
  \<open>DateTimeStart e\<close> is \<^verbatim>\<open>e.DateTimeStart(time.Local)\<close>, \<open>DateTimeEnd e\<close> is
  \<^verbatim>\<open>e.DateTimeEnd(time.Local)\<close>, \<open>RecurrenceRule e\<close> is \<^verbatim>\<open>e.Props.RecurrenceRule()\<close>
  (\<open>None\<close> is the nil pointer) and \<open>Text e name\<close> is \<^verbatim>\<open>e.Props.Text(name)\<close>.
\<close>

record Event =
  DateTimeStart :: "Time \<times> error option"
  DateTimeEnd :: "Time \<times> error option"
  RecurrenceRule :: "ROption option \<times> error option"
  Text :: "string \<Rightarrow> string \<times> error option"

definition PropSummary :: string where
  "PropSummary = ''SUMMARY''"

definition PropDescription :: string where
  "PropDescription = ''DESCRIPTION''"

definition PropLocation :: string where
  "PropLocation = ''LOCATION''"

text \<open>
  Modelled from the spec: rrule-go is not part of the repository. A constructed
  \<^verbatim>\<open>*rrule.RRule\<close> is the sequence of the start timestamps the rule generates, and
  \<^verbatim>\<open>rr.Between(after, before, inc)\<close> is, in the words of section 4.1, "all
  rule-generated start timestamps that fall between window.start and window.end
  inclusive of both boundaries" when \<open>inc\<close> is true (exclusive of both otherwise).
\<close>

type_synonym RRule = "Time list"

definition Between :: "RRule \<Rightarrow> Time \<Rightarrow> Time \<Rightarrow> bool \<Rightarrow> Time list" where
  "Between rr after before inc =
     filter (\<lambda>v. if inc then \<not> Before v after \<and> \<not> After v before
                  else After v after \<and> Before v before) rr"

section \<open>parseEvent\<close>

record event =
  start :: Time
  end' :: Time
  summary :: string
  description :: string
  location :: string

text \<open>
  \<^verbatim>\<open>rrule.NewRRule\<close> is a parameter: it returns the rule or the error of its
  construction.
\<close>

definition parseEvent ::
  "(ROption \<Rightarrow> error + RRule) \<Rightarrow> Event \<Rightarrow> Time \<Rightarrow> Time \<Rightarrow> bool \<Rightarrow> error + event list" where
  "parseEvent NewRRule e wstart wend includeDescription =
     (let dtstart = fst (DateTimeStart e);
          dtend = fst (DateTimeEnd e);
          duration = Sub dtend dtstart;
          ropt = fst (RecurrenceRule e);
          summary' = fst (Text e PropSummary);
          description' = (if includeDescription then fst (Text e PropDescription) else []);
          location' = fst (Text e PropLocation)
      in case ropt of
           Some ropt' \<Rightarrow>
             (case NewRRule (ropt'\<lparr>Dtstart := dtstart\<rparr>) of
                Inl err \<Rightarrow> Inl err
              | Inr rr \<Rightarrow>
                  Inr (map (\<lambda>t. \<lparr>start = t, end' = Add t duration, summary = summary',
                                description = description', location = location'\<rparr>)
                         (Between rr wstart wend True)))
         | None \<Rightarrow>
             Inr [\<lparr>start = dtstart, end' = dtend, summary = summary',
                   description = description', location = location'\<rparr>])"

section \<open>slices.SortFunc\<close>

text \<open>
  \<^verbatim>\<open>queryEvents\<close> sorts with \<^verbatim>\<open>slices.SortFunc\<close> of the Go standard library, which is
  pattern-defeating quicksort: insertion sort on ranges of at most 12 elements, heap
  sort once \<open>limit\<close> bad pivots have been chosen, and otherwise a partition around a
  median of three (or of nine) with the shortcuts for sorted, reversed and equal runs.
  The library is not part of the repository; the functions below follow its
  \<^verbatim>\<open>zsortanyfunc.go\<close> one for one and keep its names. \<open>data\<close> is the slice, as a list
  updated by index; \<open>a\<close> and \<open>b\<close> bound the range \<open>data[a:b]\<close> being sorted, and every
  index the functions read lies in that range (or is \<open>a - 1\<close> with \<open>0 < a\<close>), so no
  read is out of range when \<open>b \<le> length data\<close>.

  A Go loop variable that is decremented below the index it is compared with (\<open>j\<close> in
  \<^verbatim>\<open>for i <= j && ... { j-- }\<close>) is kept as \<open>jj = j + 1\<close>, a natural number, so that
  \<open>i \<le> j\<close> reads \<open>i < jj\<close> and \<open>data[j]\<close> reads \<open>data ! (jj - 1)\<close>.
\<close>

definition swap :: "'a list \<Rightarrow> nat \<Rightarrow> nat \<Rightarrow> 'a list" where
  "swap data i j = data[i := data ! j, j := data ! i]"

function insertionSort_inner :: "('a \<Rightarrow> 'a \<Rightarrow> int) \<Rightarrow> 'a list \<Rightarrow> nat \<Rightarrow> nat \<Rightarrow> 'a list" where
  "insertionSort_inner cmp data a j =
     (if a < j \<and> cmp (data ! j) (data ! (j - 1)) < 0
      then insertionSort_inner cmp (swap data j (j - 1)) a (j - 1)
      else data)"
  by pat_completeness auto
termination
  by (relation "measure (\<lambda>(cmp, data, a, j). j)") auto

declare insertionSort_inner.simps [simp del]

function insertionSort_outer :: "('a \<Rightarrow> 'a \<Rightarrow> int) \<Rightarrow> 'a list \<Rightarrow> nat \<Rightarrow> nat \<Rightarrow> nat \<Rightarrow> 'a list" where
  "insertionSort_outer cmp data a b i =
     (if i < b then insertionSort_outer cmp (insertionSort_inner cmp data a i) a b (i + 1)
      else data)"
  by pat_completeness auto
termination
  by (relation "measure (\<lambda>(cmp, data, a, b, i). b - i)") auto

declare insertionSort_outer.simps [simp del]

definition insertionSortCmpFunc :: "('a \<Rightarrow> 'a \<Rightarrow> int) \<Rightarrow> 'a list \<Rightarrow> nat \<Rightarrow> nat \<Rightarrow> 'a list" where
  "insertionSortCmpFunc cmp data a b = insertionSort_outer cmp data a b (a + 1)"

function siftDownCmpFunc :: "('a \<Rightarrow> 'a \<Rightarrow> int) \<Rightarrow> 'a list \<Rightarrow> nat \<Rightarrow> nat \<Rightarrow> nat \<Rightarrow> 'a list" where
  "siftDownCmpFunc cmp data root hi first =
     (let child = 2 * root + 1
      in if hi \<le> child then data
         else let child' = (if child + 1 < hi
                              \<and> cmp (data ! (first + child)) (data ! (first + child + 1)) < 0
                            then child + 1 else child)
              in if \<not> cmp (data ! (first + root)) (data ! (first + child')) < 0 then data
                 else siftDownCmpFunc cmp (swap data (first + root) (first + child')) child' hi first)"
  by pat_completeness auto
termination
  by (relation "measure (\<lambda>(cmp, data, root, hi, first). hi - root)") (auto simp: Let_def)

declare siftDownCmpFunc.simps [simp del]

text \<open>
  The two loops of \<^verbatim>\<open>heapSortCmpFunc\<close> count \<open>i\<close> down to 0 inclusive; the last
  argument here is \<open>i + 1\<close>.
\<close>

fun heapSort_build :: "('a \<Rightarrow> 'a \<Rightarrow> int) \<Rightarrow> 'a list \<Rightarrow> nat \<Rightarrow> nat \<Rightarrow> nat \<Rightarrow> 'a list" where
  "heapSort_build cmp data hi first 0 = data"
| "heapSort_build cmp data hi first (Suc i) =
     heapSort_build cmp (siftDownCmpFunc cmp data i hi first) hi first i"

fun heapSort_pop :: "('a \<Rightarrow> 'a \<Rightarrow> int) \<Rightarrow> 'a list \<Rightarrow> nat \<Rightarrow> nat \<Rightarrow> 'a list" where
  "heapSort_pop cmp data first 0 = data"
| "heapSort_pop cmp data first (Suc i) =
     heapSort_pop cmp (siftDownCmpFunc cmp (swap data first (first + i)) 0 i first) first i"

definition heapSortCmpFunc :: "('a \<Rightarrow> 'a \<Rightarrow> int) \<Rightarrow> 'a list \<Rightarrow> nat \<Rightarrow> nat \<Rightarrow> 'a list" where
  "heapSortCmpFunc cmp data a b =
     (let first = a; hi = b - a;
          data' = heapSort_build cmp data hi first ((hi - 1) div 2 + 1)
      in heapSort_pop cmp data' first hi)"


function partition_scanI :: "('a \<Rightarrow> 'a \<Rightarrow> int) \<Rightarrow> 'a list \<Rightarrow> nat \<Rightarrow> nat \<Rightarrow> nat \<Rightarrow> nat" where
  "partition_scanI cmp data a i jj =
     (if i < jj \<and> cmp (data ! i) (data ! a) < 0 then partition_scanI cmp data a (i + 1) jj else i)"
  by pat_completeness auto
termination
  by (relation "measure (\<lambda>(cmp, data, a, i, jj). jj - i)") auto

declare partition_scanI.simps [simp del]

function partition_scanJ :: "('a \<Rightarrow> 'a \<Rightarrow> int) \<Rightarrow> 'a list \<Rightarrow> nat \<Rightarrow> nat \<Rightarrow> nat \<Rightarrow> nat" where
  "partition_scanJ cmp data a i jj =
     (if i < jj \<and> \<not> cmp (data ! (jj - 1)) (data ! a) < 0 then partition_scanJ cmp data a i (jj - 1)
      else jj)"
  by pat_completeness auto
termination
  by (relation "measure (\<lambda>(cmp, data, a, i, jj). jj)") auto

declare partition_scanJ.simps [simp del]

text \<open>Where the scans stop: what the termination of the loops around them needs.\<close>

lemma partition_scanI_ge: "i \<le> partition_scanI cmp data a i jj"
  by (induction cmp data a i jj rule: partition_scanI.induct)
     (subst partition_scanI.simps, auto)

lemma partition_scanI_le: "i \<le> jj \<Longrightarrow> partition_scanI cmp data a i jj \<le> jj"
  by (induction cmp data a i jj rule: partition_scanI.induct)
     (subst partition_scanI.simps, auto)

lemma partition_scanJ_le: "partition_scanJ cmp data a i jj \<le> jj"
  by (induction cmp data a i jj rule: partition_scanJ.induct)
     (subst partition_scanJ.simps, auto)

lemma partition_scanJ_ge: "i \<le> jj \<Longrightarrow> i \<le> partition_scanJ cmp data a i jj"
  by (induction cmp data a i jj rule: partition_scanJ.induct)
     (subst partition_scanJ.simps, auto)

function partition_loop :: "('a \<Rightarrow> 'a \<Rightarrow> int) \<Rightarrow> 'a list \<Rightarrow> nat \<Rightarrow> nat \<Rightarrow> nat \<Rightarrow> 'a list \<times> nat" where
  "partition_loop cmp data a i jj =
     (let i' = partition_scanI cmp data a i jj;
          jj' = partition_scanJ cmp data a i' jj
      in if jj' \<le> i' then (data, jj')
         else partition_loop cmp (swap data i' (jj' - 1)) a (i' + 1) (jj' - 1))"
  by pat_completeness auto
termination
proof (relation "measure (\<lambda>(cmp, data, a, i, jj). jj - i)", goal_cases)
  case 1
  show ?case by simp
next
  case (2 cmp data a i jj i' jj')
  have "i \<le> i'" using 2(1) by (simp add: partition_scanI_ge)
  moreover have "jj' \<le> jj" using 2(2) by (simp add: partition_scanJ_le)
  ultimately show ?case using 2(3) by simp
qed

declare partition_loop.simps [simp del]

definition partitionCmpFunc ::
  "('a \<Rightarrow> 'a \<Rightarrow> int) \<Rightarrow> 'a list \<Rightarrow> nat \<Rightarrow> nat \<Rightarrow> nat \<Rightarrow> 'a list \<times> nat \<times> bool" where
  "partitionCmpFunc cmp data a b pivot =
     (let data1 = swap data a pivot;
          i = partition_scanI cmp data1 a (a + 1) b;
          jj = partition_scanJ cmp data1 a i b
      in if jj \<le> i then (swap data1 (jj - 1) a, jj - 1, True)
         else let (data2, jj') = partition_loop cmp (swap data1 i (jj - 1)) a (i + 1) (jj - 1)
              in (swap data2 (jj' - 1) a, jj' - 1, False))"

function partitionEqual_scanI :: "('a \<Rightarrow> 'a \<Rightarrow> int) \<Rightarrow> 'a list \<Rightarrow> nat \<Rightarrow> nat \<Rightarrow> nat \<Rightarrow> nat" where
  "partitionEqual_scanI cmp data a i jj =
     (if i < jj \<and> \<not> cmp (data ! a) (data ! i) < 0 then partitionEqual_scanI cmp data a (i + 1) jj
      else i)"
  by pat_completeness auto
termination
  by (relation "measure (\<lambda>(cmp, data, a, i, jj). jj - i)") auto

declare partitionEqual_scanI.simps [simp del]

function partitionEqual_scanJ :: "('a \<Rightarrow> 'a \<Rightarrow> int) \<Rightarrow> 'a list \<Rightarrow> nat \<Rightarrow> nat \<Rightarrow> nat \<Rightarrow> nat" where
  "partitionEqual_scanJ cmp data a i jj =
     (if i < jj \<and> cmp (data ! a) (data ! (jj - 1)) < 0 then partitionEqual_scanJ cmp data a i (jj - 1)
      else jj)"
  by pat_completeness auto
termination
  by (relation "measure (\<lambda>(cmp, data, a, i, jj). jj)") auto

declare partitionEqual_scanJ.simps [simp del]

lemma partitionEqual_scanI_ge: "i \<le> partitionEqual_scanI cmp data a i jj"
  by (induction cmp data a i jj rule: partitionEqual_scanI.induct)
     (subst partitionEqual_scanI.simps, auto)

lemma partitionEqual_scanJ_le: "partitionEqual_scanJ cmp data a i jj \<le> jj"
  by (induction cmp data a i jj rule: partitionEqual_scanJ.induct)
     (subst partitionEqual_scanJ.simps, auto)

function partitionEqual_loop :: "('a \<Rightarrow> 'a \<Rightarrow> int) \<Rightarrow> 'a list \<Rightarrow> nat \<Rightarrow> nat \<Rightarrow> nat \<Rightarrow> 'a list \<times> nat" where
  "partitionEqual_loop cmp data a i jj =
     (let i' = partitionEqual_scanI cmp data a i jj;
          jj' = partitionEqual_scanJ cmp data a i' jj
      in if jj' \<le> i' then (data, i')
         else partitionEqual_loop cmp (swap data i' (jj' - 1)) a (i' + 1) (jj' - 1))"
  by pat_completeness auto
termination
proof (relation "measure (\<lambda>(cmp, data, a, i, jj). jj - i)", goal_cases)
  case 1
  show ?case by simp
next
  case (2 cmp data a i jj i' jj')
  have "i \<le> i'" using 2(1) by (simp add: partitionEqual_scanI_ge)
  moreover have "jj' \<le> jj" using 2(2) by (simp add: partitionEqual_scanJ_le)
  ultimately show ?case using 2(3) by simp
qed

declare partitionEqual_loop.simps [simp del]

definition partitionEqualCmpFunc ::
  "('a \<Rightarrow> 'a \<Rightarrow> int) \<Rightarrow> 'a list \<Rightarrow> nat \<Rightarrow> nat \<Rightarrow> nat \<Rightarrow> 'a list \<times> nat" where
  "partitionEqualCmpFunc cmp data a b pivot =
     partitionEqual_loop cmp (swap data a pivot) a (a + 1) b"


lemma partition_loop_bounds:
  "i \<le> jj + 1 \<Longrightarrow> i \<le> snd (partition_loop cmp data a i jj) + 1 \<and> snd (partition_loop cmp data a i jj) \<le> jj"
proof (induction cmp data a i jj rule: partition_loop.induct)
  case (1 cmp data a i jj)
  define i' where "i' = partition_scanI cmp data a i jj"
  define jj' where "jj' = partition_scanJ cmp data a i' jj"
  have i': "i \<le> i'" by (simp add: i'_def partition_scanI_ge)
  have jj': "jj' \<le> jj" by (simp add: jj'_def partition_scanJ_le)
  show ?case
  proof (cases "jj' \<le> i'")
    case True
    have "i \<le> jj' + 1"
    proof (cases "i \<le> jj")
      case True
      then have "i' \<le> jj" by (simp add: i'_def partition_scanI_le)
      then have "i' \<le> jj'" by (simp add: jj'_def partition_scanJ_ge)
      with i' show ?thesis by simp
    next
      case False
      then have "i' = i" by (simp add: i'_def partition_scanI.simps [of _ _ _ i])
      with False have "jj' = jj" by (simp add: jj'_def partition_scanJ.simps [of _ _ _ i])
      with False 1(2) show ?thesis by simp
    qed
    with True jj' show ?thesis
      by (subst (1 2) partition_loop.simps) (simp add: Let_def i'_def [symmetric] jj'_def [symmetric])
  next
    case False
    then have "i' + 1 \<le> (jj' - 1) + 1" by simp
    from 1(1) [OF i'_def jj'_def False this]
    show ?thesis using False i' jj'
      by (subst (1 2) partition_loop.simps)
         (simp add: Let_def i'_def [symmetric] jj'_def [symmetric]; arith)
  qed
qed

lemma partitionCmpFunc_bounds:
  assumes "a < b"
  shows "a \<le> fst (snd (partitionCmpFunc cmp data a b pivot))
       \<and> fst (snd (partitionCmpFunc cmp data a b pivot)) < b"
proof -
  define data1 where "data1 = swap data a pivot"
  define i where "i = partition_scanI cmp data1 a (a + 1) b"
  define jj where "jj = partition_scanJ cmp data1 a i b"
  have i: "a + 1 \<le> i" "i \<le> b"
    using assms by (simp_all add: i_def partition_scanI_ge partition_scanI_le)
  have jj: "i \<le> jj" "jj \<le> b"
    using i by (simp_all add: jj_def partition_scanJ_ge partition_scanJ_le)
  show ?thesis
  proof (cases "jj \<le> i")
    case True
    then show ?thesis using i jj
      unfolding partitionCmpFunc_def Let_def data1_def [symmetric] i_def [symmetric] jj_def [symmetric]
      by (simp; arith)
  next
    case False
    then have "i + 1 \<le> (jj - 1) + 1" by simp
    from partition_loop_bounds [OF this, of cmp "swap data1 i (jj - 1)" a]
    show ?thesis using False i jj
      unfolding partitionCmpFunc_def Let_def data1_def [symmetric] i_def [symmetric] jj_def [symmetric]
      by (cases "partition_loop cmp (swap data1 i (jj - 1)) a (i + 1) (jj - 1)") (simp; arith)
  qed
qed

lemma partitionEqual_loop_ge: "i \<le> snd (partitionEqual_loop cmp data a i jj)"
proof (induction cmp data a i jj rule: partitionEqual_loop.induct)
  case (1 cmp data a i jj)
  define i' where "i' = partitionEqual_scanI cmp data a i jj"
  define jj' where "jj' = partitionEqual_scanJ cmp data a i' jj"
  have i': "i \<le> i'" by (simp add: i'_def partitionEqual_scanI_ge)
  show ?case
  proof (cases "jj' \<le> i'")
    case True
    with i' show ?thesis
      by (subst partitionEqual_loop.simps) (simp add: Let_def i'_def [symmetric] jj'_def [symmetric])
  next
    case False
    from 1 [OF i'_def jj'_def False]
    show ?thesis using False i'
      by (subst partitionEqual_loop.simps) (simp add: Let_def i'_def [symmetric] jj'_def [symmetric])
  qed
qed

lemma partitionEqualCmpFunc_gt: "a < snd (partitionEqualCmpFunc cmp data a b pivot)"
  using partitionEqual_loop_ge [of "a + 1" cmp "swap data a pivot" a b]
  by (simp add: partitionEqualCmpFunc_def)


function partialInsertionSort_scan :: "('a \<Rightarrow> 'a \<Rightarrow> int) \<Rightarrow> 'a list \<Rightarrow> nat \<Rightarrow> nat \<Rightarrow> nat" where
  "partialInsertionSort_scan cmp data i b =
     (if i < b \<and> \<not> cmp (data ! i) (data ! (i - 1)) < 0
      then partialInsertionSort_scan cmp data (i + 1) b else i)"
  by pat_completeness auto
termination
  by (relation "measure (\<lambda>(cmp, data, i, b). b - i)") auto

declare partialInsertionSort_scan.simps [simp del]

function partialInsertionSort_left :: "('a \<Rightarrow> 'a \<Rightarrow> int) \<Rightarrow> 'a list \<Rightarrow> nat \<Rightarrow> 'a list" where
  "partialInsertionSort_left cmp data j =
     (if 1 \<le> j
      then if \<not> cmp (data ! j) (data ! (j - 1)) < 0 then data
           else partialInsertionSort_left cmp (swap data j (j - 1)) (j - 1)
      else data)"
  by pat_completeness auto
termination
  by (relation "measure (\<lambda>(cmp, data, j). j)") auto

declare partialInsertionSort_left.simps [simp del]

function partialInsertionSort_right :: "('a \<Rightarrow> 'a \<Rightarrow> int) \<Rightarrow> 'a list \<Rightarrow> nat \<Rightarrow> nat \<Rightarrow> 'a list" where
  "partialInsertionSort_right cmp data j b =
     (if j < b
      then if \<not> cmp (data ! j) (data ! (j - 1)) < 0 then data
           else partialInsertionSort_right cmp (swap data j (j - 1)) (j + 1) b
      else data)"
  by pat_completeness auto
termination
  by (relation "measure (\<lambda>(cmp, data, j, b). b - j)") auto

declare partialInsertionSort_right.simps [simp del]

fun partialInsertionSort_steps ::
  "('a \<Rightarrow> 'a \<Rightarrow> int) \<Rightarrow> 'a list \<Rightarrow> nat \<Rightarrow> nat \<Rightarrow> nat \<Rightarrow> nat \<Rightarrow> bool \<times> 'a list" where
  "partialInsertionSort_steps cmp data a b i 0 = (False, data)"
| "partialInsertionSort_steps cmp data a b i (Suc steps) =
     (let i' = partialInsertionSort_scan cmp data i b
      in if i' = b then (True, data)
         else if b - a < 50 then (False, data)
         else let data1 = swap data i' (i' - 1);
                  data2 = (if 2 \<le> i' - a then partialInsertionSort_left cmp data1 (i' - 1)
                           else data1);
                  data3 = (if 2 \<le> b - i' then partialInsertionSort_right cmp data2 (i' + 1) b
                           else data2)
              in partialInsertionSort_steps cmp data3 a b i' steps)"

definition partialInsertionSortCmpFunc ::
  "('a \<Rightarrow> 'a \<Rightarrow> int) \<Rightarrow> 'a list \<Rightarrow> nat \<Rightarrow> nat \<Rightarrow> bool \<times> 'a list" where
  "partialInsertionSortCmpFunc cmp data a b = partialInsertionSort_steps cmp data a b (a + 1) 5"

text \<open>
  \<^verbatim>\<open>bits.Len\<close> is the number of bits of its argument; \<^verbatim>\<open>xorshift\<close> is the generator
  \<^verbatim>\<open>breakPatternsCmpFunc\<close> seeds with the length of the range. The three elements it
  swaps away are the ones at \<open>idx - 1\<close>, \<open>idx\<close> and \<open>idx + 1\<close> with \<open>idx\<close> the middle of
  the range, \<open>a + (n div 4) * 2\<close>: those \<^verbatim>\<open>choosePivotCmpFunc\<close> looks at next (positions
  7, 8 and 9 of a range of 16 that starts at 0).
\<close>

fun bits_Len :: "nat \<Rightarrow> nat" where
  "bits_Len n = (if n = 0 then 0 else Suc (bits_Len (n div 2)))"

declare bits_Len.simps [simp del]

definition xorshift_Next :: "64 word \<Rightarrow> 64 word" where
  "xorshift_Next r =
     (let r1 = r XOR push_bit 13 r;
          r2 = r1 XOR drop_bit 7 r1
      in r2 XOR push_bit 17 r2)"

definition nextPowerOfTwo :: "nat \<Rightarrow> nat" where
  "nextPowerOfTwo n = 2 ^ bits_Len n"

fun breakPatterns_loop :: "'a list \<Rightarrow> nat \<Rightarrow> nat \<Rightarrow> nat \<Rightarrow> nat \<Rightarrow> 64 word \<Rightarrow> nat \<Rightarrow> nat \<Rightarrow> 'a list" where
  "breakPatterns_loop data a n modulus idx random i 0 = data"
| "breakPatterns_loop data a n modulus idx random i (Suc k) =
     (let random' = xorshift_Next random;
          other = unat random' mod modulus;
          other' = (if n \<le> other then other - n else other)
      in breakPatterns_loop (swap data (idx - 1 + i) (a + other')) a n modulus idx random' (i + 1) k)"

definition breakPatternsCmpFunc :: "('a \<Rightarrow> 'a \<Rightarrow> int) \<Rightarrow> 'a list \<Rightarrow> nat \<Rightarrow> nat \<Rightarrow> 'a list" where
  "breakPatternsCmpFunc cmp data a b =
     (let n = b - a
      in if 8 \<le> n
         then breakPatterns_loop data a n (nextPowerOfTwo n) (a + (n div 4) * 2)
                (word_of_nat n) 0 3
         else data)"

datatype sortedHint = unknownHint | increasingHint | decreasingHint

definition order2CmpFunc ::
  "('a \<Rightarrow> 'a \<Rightarrow> int) \<Rightarrow> 'a list \<Rightarrow> nat \<Rightarrow> nat \<Rightarrow> nat \<Rightarrow> nat \<times> nat \<times> nat" where
  "order2CmpFunc cmp data a b swaps =
     (if cmp (data ! b) (data ! a) < 0 then (b, a, swaps + 1) else (a, b, swaps))"

definition medianCmpFunc ::
  "('a \<Rightarrow> 'a \<Rightarrow> int) \<Rightarrow> 'a list \<Rightarrow> nat \<Rightarrow> nat \<Rightarrow> nat \<Rightarrow> nat \<Rightarrow> nat \<times> nat" where
  "medianCmpFunc cmp data a b c swaps =
     (let (a1, b1, s1) = order2CmpFunc cmp data a b swaps;
          (b2, c2, s2) = order2CmpFunc cmp data b1 c s1;
          (a3, b3, s3) = order2CmpFunc cmp data a1 b2 s2
      in (b3, s3))"

definition medianAdjacentCmpFunc ::
  "('a \<Rightarrow> 'a \<Rightarrow> int) \<Rightarrow> 'a list \<Rightarrow> nat \<Rightarrow> nat \<Rightarrow> nat \<times> nat" where
  "medianAdjacentCmpFunc cmp data a swaps = medianCmpFunc cmp data (a - 1) a (a + 1) swaps"

definition choosePivotCmpFunc ::
  "('a \<Rightarrow> 'a \<Rightarrow> int) \<Rightarrow> 'a list \<Rightarrow> nat \<Rightarrow> nat \<Rightarrow> nat \<times> sortedHint" where
  "choosePivotCmpFunc cmp data a b =
     (let l = b - a;
          i = a + l div 4 * 1;
          j = a + l div 4 * 2;
          k = a + l div 4 * 3;
          (j', swaps) =
            (if 8 \<le> l
             then let (i1, s1) = (if 50 \<le> l then medianAdjacentCmpFunc cmp data i 0 else (i, 0));
                      (j1, s2) = (if 50 \<le> l then medianAdjacentCmpFunc cmp data j s1 else (j, s1));
                      (k1, s3) = (if 50 \<le> l then medianAdjacentCmpFunc cmp data k s2 else (k, s2))
                  in medianCmpFunc cmp data i1 j1 k1 s3
             else (j, 0))
      in if swaps = 0 then (j', increasingHint)
         else if swaps = 12 then (j', decreasingHint)
         else (j', unknownHint))"

function reverseRange_loop :: "'a list \<Rightarrow> nat \<Rightarrow> nat \<Rightarrow> 'a list" where
  "reverseRange_loop data i j =
     (if i < j then reverseRange_loop (swap data i j) (i + 1) (j - 1) else data)"
  by pat_completeness auto
termination
  by (relation "measure (\<lambda>(data, i, j). j - i)") auto

declare reverseRange_loop.simps [simp del]

definition reverseRangeCmpFunc :: "('a \<Rightarrow> 'a \<Rightarrow> int) \<Rightarrow> 'a list \<Rightarrow> nat \<Rightarrow> nat \<Rightarrow> 'a list" where
  "reverseRangeCmpFunc cmp data a b = (if b = 0 then data else reverseRange_loop data a (b - 1))"

text \<open>
  One turn of the loop of \<^verbatim>\<open>pdqsortCmpFunc\<close> up to the partition: break patterns after
  an unbalanced partition, choose the pivot, reverse a descending range, and try to
  finish a range that looks sorted. The result says whether that finished the range,
  and gives the slice, the pivot and the limit after it.
\<close>

definition pdqsort_prepare ::
  "('a \<Rightarrow> 'a \<Rightarrow> int) \<Rightarrow> 'a list \<Rightarrow> nat \<Rightarrow> nat \<Rightarrow> nat \<Rightarrow> bool \<Rightarrow> bool
     \<Rightarrow> bool \<times> 'a list \<times> nat \<times> nat" where
  "pdqsort_prepare cmp data a b limit wasBalanced wasPartitioned =
     (let (data1, limit1) =
            (if \<not> wasBalanced then (breakPatternsCmpFunc cmp data a b, limit - 1)
             else (data, limit));
          (pivot0, hint0) = choosePivotCmpFunc cmp data1 a b;
          (data2, pivot, hint) =
            (if hint0 = decreasingHint
             then (reverseRangeCmpFunc cmp data1 a b, (b - 1) - (pivot0 - a), increasingHint)
             else (data1, pivot0, hint0));
          (sorted', data3) =
            (if wasBalanced \<and> wasPartitioned \<and> hint = increasingHint
             then partialInsertionSortCmpFunc cmp data2 a b
             else (False, data2))
      in (sorted', data3, pivot, limit1))"

lemma partitionEqualCmpFunc_gt':
  "(d, mid) = partitionEqualCmpFunc cmp data a b pivot \<Longrightarrow> a < mid"
  using partitionEqualCmpFunc_gt [of a cmp data b pivot] by (simp add: snd_def split: prod.splits)

lemma partitionCmpFunc_bounds':
  "(d, r) = partitionCmpFunc cmp data a b pivot \<Longrightarrow> (mid, ap) = r \<Longrightarrow> \<not> b - a \<le> 12
     \<Longrightarrow> a \<le> mid \<and> mid < b"
  using partitionCmpFunc_bounds [of a b cmp data pivot]
  by (cases "partitionCmpFunc cmp data a b pivot") auto

text \<open>
  The loop itself. The variables it assigns (\<open>a\<close>, \<open>b\<close>, \<open>limit\<close>, \<open>wasBalanced\<close>,
  \<open>wasPartitioned\<close>) are arguments; a call from outside starts with both flags true.
\<close>

function pdqsortCmpFunc ::
  "('a \<Rightarrow> 'a \<Rightarrow> int) \<Rightarrow> 'a list \<Rightarrow> nat \<Rightarrow> nat \<Rightarrow> nat \<Rightarrow> bool \<Rightarrow> bool \<Rightarrow> 'a list" where
  "pdqsortCmpFunc cmp data a b limit wasBalanced wasPartitioned =
     (if b - a \<le> 12 then insertionSortCmpFunc cmp data a b
      else if limit = 0 then heapSortCmpFunc cmp data a b
      else case pdqsort_prepare cmp data a b limit wasBalanced wasPartitioned of
             (sorted', data3, pivot, limit1) \<Rightarrow>
               if sorted' then data3
               else if 0 < a \<and> \<not> cmp (data3 ! (a - 1)) (data3 ! pivot) < 0
               then case partitionEqualCmpFunc cmp data3 a b pivot of
                      (data4, mid) \<Rightarrow>
                        pdqsortCmpFunc cmp data4 mid b limit1 wasBalanced wasPartitioned
               else case partitionCmpFunc cmp data3 a b pivot of
                      (data4, mid, alreadyPartitioned) \<Rightarrow>
                        if mid - a < b - mid
                        then pdqsortCmpFunc cmp
                               (pdqsortCmpFunc cmp data4 a mid limit1 True True)
                               (mid + 1) b limit1 ((b - a) div 8 \<le> mid - a) alreadyPartitioned
                        else pdqsortCmpFunc cmp
                               (pdqsortCmpFunc cmp data4 (mid + 1) b limit1 True True)
                               a mid limit1 ((b - a) div 8 \<le> b - mid) alreadyPartitioned)"
  by pat_completeness auto
termination
  apply (relation "measure (\<lambda>(cmp, data, a, b, limit, wb, wp). b - a)")
  apply simp_all
  subgoal for cmp data a b limit wb wp x y xa ya xb yb xc yc
    using partitionEqualCmpFunc_gt' [of xc yc cmp xa a b xb] by simp
  subgoal for cmp data a b limit wb wp x y xa ya xb yb xc yc xd yd
    using partitionCmpFunc_bounds' [of xc yc cmp xa a b xb xd yd] by (simp; arith)
  subgoal for cmp data a b limit wb wp x y xa ya xb yb xc yc xd yd
    using partitionCmpFunc_bounds' [of xc yc cmp xa a b xb xd yd] by (simp; arith)
  done

declare pdqsortCmpFunc.simps [simp del]

definition SortFunc :: "'a list \<Rightarrow> ('a \<Rightarrow> 'a \<Rightarrow> int) \<Rightarrow> 'a list" where
  "SortFunc x cmp = (let n = length x in pdqsortCmpFunc cmp x 0 n (bits_Len n) True True)"

section \<open>queryEvents\<close>

text \<open>
  The caldav types, as far as \<^verbatim>\<open>queryEvents\<close> touches them. A \<^verbatim>\<open>caldav.CalendarQuery\<close>
  holds the component request (which components and which of their properties the
  server is to return) and the component filter (with the time range); the fields
  \<^verbatim>\<open>queryEvents\<close> leaves out have Go's zero value.
\<close>

record Calendar =
  Path :: string
  Name :: string

datatype CalendarCompRequest =
  MkCalendarCompRequest (reqName: string) (reqProps: "string list")
    (reqComps: "CalendarCompRequest list")

datatype CompFilter =
  MkCompFilter (fltName: string) (fltStart: Time) (fltEnd: Time) (fltComps: "CompFilter list")

record CalendarQuery =
  CompRequest :: CalendarCompRequest
  CompFilter :: CompFilter

text \<open>A \<^verbatim>\<open>caldav.CalendarObject\<close>: \<open>Events o\<close> is \<^verbatim>\<open>o.Data.Events()\<close>.\<close>

record CalendarObject =
  Events :: "Event list"

text \<open>
  \<^verbatim>\<open>client.QueryCalendar(ctx, path, &query)\<close> is a parameter, a function of the path and
  the query: the program only reads from the server, and asks once per calendar. What
  \<^verbatim>\<open>log.Printf\<close> and \<^verbatim>\<open>log.Println\<close> write is collected, one message per call, next to the
  slice \<open>es\<close>.
\<close>

definition error_text :: "error \<Rightarrow> string" where
  "error_text err = (case err of Error msg \<Rightarrow> msg)"

text \<open>The loop over \<^verbatim>\<open>o.Data.Events()\<close>.\<close>

fun queryEvents_events ::
  "(ROption \<Rightarrow> error + RRule) \<Rightarrow> Time \<Rightarrow> Time \<Rightarrow> bool \<Rightarrow> Event list
     \<Rightarrow> string list \<times> event list \<Rightarrow> string list \<times> event list" where
  "queryEvents_events NewRRule wstart wend includeDescription [] (lg, es) = (lg, es)"
| "queryEvents_events NewRRule wstart wend includeDescription (e # rest) (lg, es) =
     (case parseEvent NewRRule e wstart wend includeDescription of
        Inl err \<Rightarrow>
          queryEvents_events NewRRule wstart wend includeDescription rest
            (lg @ [''parseEvent: '' @ error_text err], es)
      | Inr e' \<Rightarrow>
          queryEvents_events NewRRule wstart wend includeDescription rest (lg, es @ e'))"

text \<open>The loop over \<^verbatim>\<open>objs\<close>.\<close>

fun queryEvents_objs ::
  "(ROption \<Rightarrow> error + RRule) \<Rightarrow> Time \<Rightarrow> Time \<Rightarrow> bool \<Rightarrow> CalendarObject list
     \<Rightarrow> string list \<times> event list \<Rightarrow> string list \<times> event list" where
  "queryEvents_objs NewRRule wstart wend includeDescription [] st = st"
| "queryEvents_objs NewRRule wstart wend includeDescription (ob # rest) st =
     queryEvents_objs NewRRule wstart wend includeDescription rest
       (queryEvents_events NewRRule wstart wend includeDescription (Events ob) st)"

text \<open>The loop over \<^verbatim>\<open>calendars\<close>.\<close>

fun queryEvents_calendars ::
  "(ROption \<Rightarrow> error + RRule) \<Rightarrow> (string \<Rightarrow> CalendarQuery \<Rightarrow> error + CalendarObject list)
     \<Rightarrow> CalendarQuery \<Rightarrow> Time \<Rightarrow> Time \<Rightarrow> bool \<Rightarrow> Calendar list
     \<Rightarrow> string list \<times> event list \<Rightarrow> string list \<times> event list" where
  "queryEvents_calendars NewRRule QueryCalendar query wstart wend includeDescription []
     (lg, es) = (lg, es)"
| "queryEvents_calendars NewRRule QueryCalendar query wstart wend includeDescription (c # rest)
     (lg, es) =
     (case QueryCalendar (Path c) query of
        Inl err \<Rightarrow>
          queryEvents_calendars NewRRule QueryCalendar query wstart wend includeDescription rest
            (lg @ [''QueryCalendar('' @ Name c @ ''): '' @ error_text err], es)
      | Inr objs \<Rightarrow>
          queryEvents_calendars NewRRule QueryCalendar query wstart wend includeDescription rest
            (queryEvents_objs NewRRule wstart wend includeDescription objs (lg, es)))"

definition queryEvents_query :: "Time \<Rightarrow> Time \<Rightarrow> bool \<Rightarrow> CalendarQuery" where
  "queryEvents_query wstart wend includeDescription =
     (let props = [''SUMMARY'', ''DTSTART'', ''DTEND'', ''LOCATION'']
                    @ (if includeDescription then [''DESCRIPTION''] else [])
      in \<lparr>CompRequest =
            MkCalendarCompRequest ''VCALENDAR'' [] [MkCalendarCompRequest ''VEVENT'' props []],
          CompFilter =
            MkCompFilter ''VCALENDAR'' zeroTime zeroTime [MkCompFilter ''VEVENT'' wstart wend []]\<rparr>)"

text \<open>
  \<^verbatim>\<open>queryEvents\<close> returns the log it wrote and the Go pair \<^verbatim>\<open>(es, err)\<close> as a sum; the
  comparison function of the sort is \<^verbatim>\<open>a.start.Compare(b.start)\<close>.
\<close>

definition queryEvents ::
  "(ROption \<Rightarrow> error + RRule) \<Rightarrow> (string \<Rightarrow> CalendarQuery \<Rightarrow> error + CalendarObject list)
     \<Rightarrow> Calendar list \<Rightarrow> Time \<Rightarrow> Time \<Rightarrow> bool \<Rightarrow> string list \<times> (error + event list)" where
  "queryEvents NewRRule QueryCalendar calendars wstart wend includeDescription =
     (let query = queryEvents_query wstart wend includeDescription;
          (lg, es) = queryEvents_calendars NewRRule QueryCalendar query wstart wend
                       includeDescription calendars ([], [])
      in (lg, Inr (SortFunc es (\<lambda>a b. Compare (start a) (start b)))))"

text \<open>
  What one event, one object and one calendar add to the slice \<open>es\<close> and to the log,
  written down on their own: the partial results that section 4.2 of the specification
  asks to be accumulated. The theorems on \<^verbatim>\<open>queryEvents\<close> compare its loops with these.
\<close>

definition event_occurrences ::
  "(ROption \<Rightarrow> error + RRule) \<Rightarrow> Time \<Rightarrow> Time \<Rightarrow> bool \<Rightarrow> Event \<Rightarrow> event list" where
  "event_occurrences NewRRule wstart wend includeDescription e =
     (case parseEvent NewRRule e wstart wend includeDescription of
        Inl err \<Rightarrow> []
      | Inr e' \<Rightarrow> e')"

definition event_log ::
  "(ROption \<Rightarrow> error + RRule) \<Rightarrow> Time \<Rightarrow> Time \<Rightarrow> bool \<Rightarrow> Event \<Rightarrow> string list" where
  "event_log NewRRule wstart wend includeDescription e =
     (case parseEvent NewRRule e wstart wend includeDescription of
        Inl err \<Rightarrow> [''parseEvent: '' @ error_text err]
      | Inr e' \<Rightarrow> [])"

definition object_occurrences ::
  "(ROption \<Rightarrow> error + RRule) \<Rightarrow> Time \<Rightarrow> Time \<Rightarrow> bool \<Rightarrow> CalendarObject \<Rightarrow> event list" where
  "object_occurrences NewRRule wstart wend includeDescription ob =
     concat (map (event_occurrences NewRRule wstart wend includeDescription) (Events ob))"

definition object_log ::
  "(ROption \<Rightarrow> error + RRule) \<Rightarrow> Time \<Rightarrow> Time \<Rightarrow> bool \<Rightarrow> CalendarObject \<Rightarrow> string list" where
  "object_log NewRRule wstart wend includeDescription ob =
     concat (map (event_log NewRRule wstart wend includeDescription) (Events ob))"

definition calendar_occurrences ::
  "(ROption \<Rightarrow> error + RRule) \<Rightarrow> (string \<Rightarrow> CalendarQuery \<Rightarrow> error + CalendarObject list)
     \<Rightarrow> Time \<Rightarrow> Time \<Rightarrow> bool \<Rightarrow> Calendar \<Rightarrow> event list" where
  "calendar_occurrences NewRRule QueryCalendar wstart wend includeDescription c =
     (case QueryCalendar (Path c) (queryEvents_query wstart wend includeDescription) of
        Inl err \<Rightarrow> []
      | Inr objs \<Rightarrow>
          concat (map (object_occurrences NewRRule wstart wend includeDescription) objs))"

definition calendar_log ::
  "(ROption \<Rightarrow> error + RRule) \<Rightarrow> (string \<Rightarrow> CalendarQuery \<Rightarrow> error + CalendarObject list)
     \<Rightarrow> Time \<Rightarrow> Time \<Rightarrow> bool \<Rightarrow> Calendar \<Rightarrow> string list" where
  "calendar_log NewRRule QueryCalendar wstart wend includeDescription c =
     (case QueryCalendar (Path c) (queryEvents_query wstart wend includeDescription) of
        Inl err \<Rightarrow> [''QueryCalendar('' @ Name c @ ''): '' @ error_text err]
      | Inr objs \<Rightarrow> concat (map (object_log NewRRule wstart wend includeDescription) objs))"

text \<open>
  An event and an object with the description text taken out: two inputs differ only in
  their descriptions when these agree on them.
\<close>

definition hideDescription :: "Event \<Rightarrow> Event" where
  "hideDescription e = e\<lparr>Text := (\<lambda>name. if name = PropDescription then ([], None) else Text e name)\<rparr>"

definition hideDescriptions :: "CalendarObject \<Rightarrow> CalendarObject" where
  "hideDescriptions ob = ob\<lparr>Events := map hideDescription (Events ob)\<rparr>"

text \<open>An event with the errors of its accessors cleared, the values left as they are.\<close>

definition clearErrors :: "Event \<Rightarrow> Event" where
  "clearErrors e =
     \<lparr>DateTimeStart = (fst (DateTimeStart e), None),
      DateTimeEnd = (fst (DateTimeEnd e), None),
      RecurrenceRule = (fst (RecurrenceRule e), None),
      Text = (\<lambda>name. (fst (Text e name), None))\<rparr>"

text \<open>
  The occurrence made of zero values but for its start: it ends when it starts and its
  texts are empty.
\<close>

definition zero_occurrence :: "Time \<Rightarrow> event" where
  "zero_occurrence t = \<lparr>start = t, end' = t, summary = [], description = [], location = []\<rparr>"

section \<open>printEvent\<close>

text \<open>
  What \<^verbatim>\<open>printEvent\<close> asks of the time and fmt packages. \<^verbatim>\<open>t.Hour()\<close> and \<^verbatim>\<open>t.Minute()\<close>
  read the clock of \<open>t\<close>'s location: the seconds since the Unix epoch, moved by the
  offset in force, within their day.
\<close>

definition localSeconds :: "Time \<Rightarrow> int" where
  "localSeconds t = (let sec = unixNano t div Second in sec + lookup (loc t) sec)"

definition Time_Hour :: "Time \<Rightarrow> int" where
  "Time_Hour t = (localSeconds t mod 86400) div 3600"

definition Time_Minute :: "Time \<Rightarrow> int" where
  "Time_Minute t = (localSeconds t mod 3600) div 60"

text \<open>The weekday (Sunday is 0) and the civil date of the proleptic Gregorian calendar.\<close>

definition Time_Weekday :: "Time \<Rightarrow> int" where
  "Time_Weekday t = (localSeconds t div 86400 + 4) mod 7"

definition Time_Date :: "Time \<Rightarrow> int \<times> int \<times> int" where
  "Time_Date t =
     (let z = localSeconds t div 86400 + 719468;
          era = z div 146097;
          doe = z - era * 146097;
          yoe = (doe - doe div 1460 + doe div 36524 - doe div 146096) div 365;
          doy = doe - (365 * yoe + yoe div 4 - yoe div 100);
          mp = (5 * doy + 2) div 153;
          d = doy - (153 * mp + 2) div 5 + 1;
          m = (if mp < 10 then mp + 3 else mp - 9);
          y = yoe + era * 400 + (if m \<le> 2 then 1 else 0)
      in (y, m, d))"

text \<open>
  The decimal digits of an integer that is not negative, and an integer padded on the
  left to a width (the sign first).
\<close>

function digits :: "int \<Rightarrow> string" where
  "digits n = (if n < 10 then [''0123456789'' ! nat n]
               else digits (n div 10) @ [''0123456789'' ! nat (n mod 10)])"
  by pat_completeness auto
termination
  by (relation "measure nat") auto

declare digits.simps [simp del]

definition appendInt :: "int \<Rightarrow> nat \<Rightarrow> string" where
  "appendInt x width =
     (let ds = digits \<bar>x\<bar>
      in (if x < 0 then ''-'' else []) @ replicate (width - length ds) CHR ''0'' @ ds)"

definition shortDayNames :: "string list" where
  "shortDayNames = [''Sun'', ''Mon'', ''Tue'', ''Wed'', ''Thu'', ''Fri'', ''Sat'']"

text \<open>
  \<^verbatim>\<open>t.Format(layout)\<close>, for the elements that the two layouts of \<^verbatim>\<open>printEvent\<close> are made
  of: \<^verbatim>\<open>Mon\<close>, \<^verbatim>\<open>2006\<close>, \<^verbatim>\<open>01\<close>, \<^verbatim>\<open>02\<close>, \<^verbatim>\<open>15\<close> and \<^verbatim>\<open>04\<close>; every other character of the
  layout is copied.
\<close>

function Format :: "Time \<Rightarrow> string \<Rightarrow> string" where
  "Format t layout =
     (if layout = [] then []
      else if take 3 layout = ''Mon''
        then shortDayNames ! nat (Time_Weekday t) @ Format t (drop 3 layout)
      else if take 4 layout = ''2006''
        then appendInt (fst (Time_Date t)) 4 @ Format t (drop 4 layout)
      else if take 2 layout = ''01''
        then appendInt (fst (snd (Time_Date t))) 2 @ Format t (drop 2 layout)
      else if take 2 layout = ''02''
        then appendInt (snd (snd (Time_Date t))) 2 @ Format t (drop 2 layout)
      else if take 2 layout = ''15''
        then appendInt (Time_Hour t) 2 @ Format t (drop 2 layout)
      else if take 2 layout = ''04''
        then appendInt (Time_Minute t) 2 @ Format t (drop 2 layout)
      else hd layout # Format t (tl layout))"
  by pat_completeness auto
termination
  by (relation "measure (\<lambda>(t, layout). length layout)") auto

declare Format.simps [simp del]

text \<open>
  \<^verbatim>\<open>fmt.Sprintf\<close> of an integer with the verbs \<^verbatim>\<open>%2v\<close> (at least two characters, spaces
  on the left) and \<^verbatim>\<open>%02v\<close> (zeros on the left, after the sign).
\<close>

definition Sprintf_2v :: "int \<Rightarrow> string" where
  "Sprintf_2v x = (let s = appendInt x 0 in replicate (2 - length s) CHR '' '' @ s)"

definition Sprintf_02v :: "int \<Rightarrow> string" where
  "Sprintf_02v x = (if x < 0 then appendInt x 1 else appendInt x 2)"

text \<open>
  \<^verbatim>\<open>d.String()\<close> of a Duration: hours, minutes and seconds as in \<^verbatim>\<open>72h3m0.5s\<close>; below one
  second the unit is ns, the micro sign (two bytes in UTF-8) and s, or ms; zero is
  \<^verbatim>\<open>0s\<close>. \<open>fmtFrac\<close> strips \<open>prec\<close> digits off \<open>v\<close> and prints them as a fraction
  without its trailing zeros.
\<close>

fun fmtFrac_loop :: "int \<Rightarrow> nat \<Rightarrow> bool \<Rightarrow> string \<Rightarrow> string \<times> int" where
  "fmtFrac_loop v 0 print buf = ((if print then ''.'' @ buf else buf), v)"
| "fmtFrac_loop v (Suc prec) print buf =
     (let digit = v mod 10;
          print' = (print \<or> digit \<noteq> 0)
      in fmtFrac_loop (v div 10) prec print'
           (if print' then (''0123456789'' ! nat digit) # buf else buf))"

definition fmtFrac :: "int \<Rightarrow> nat \<Rightarrow> string \<times> int" where
  "fmtFrac v prec = fmtFrac_loop v prec False []"

definition Duration_String :: "Duration \<Rightarrow> string" where
  "Duration_String d =
     (let u = \<bar>d\<bar>;
          body =
            (if u < 1000000000
             then if u = 0 then ''0s''
                  else if u < 1000 then digits u @ ''ns''
                  else if u < 1000000
                    then (case fmtFrac u 3 of (frac, u') \<Rightarrow>
                            digits u' @ frac @ [CHR 0xC2, CHR 0xB5] @ ''s'')
                  else (case fmtFrac u 6 of (frac, u') \<Rightarrow> digits u' @ frac @ ''ms'')
             else (case fmtFrac u 9 of (frac, u1) \<Rightarrow>
                     let secs = digits (u1 mod 60) @ frac @ ''s'';
                         u2 = u1 div 60
                     in if 0 < u2
                        then (if 0 < u2 div 60 then digits (u2 div 60) @ ''h'' else [])
                               @ digits (u2 mod 60) @ ''m'' @ secs
                        else secs))
      in if d < 0 then ''-'' @ body else body)"

text \<open>
  The duration column of a timed line: the variable \<open>d\<close> of \<^verbatim>\<open>printEvent\<close>. Go's integer
  division rounds towards zero; it is applied to a positive duration only, where that
  is \<open>div\<close>.
\<close>

definition printEvent_d :: "Duration \<Rightarrow> string" where
  "printEvent_d duration =
     (if 0 < duration \<and> duration < 24 * Hour
      then let h = duration div Hour;
               m = (duration - h * Hour) div Minute
           in if m = 0 then Sprintf_2v h @ ''h   ''
              else Sprintf_2v h @ ''h'' @ Sprintf_02v m @ ''m''
      else Duration_String duration)"

text \<open>The first line \<^verbatim>\<open>printEvent\<close> formats: the all-day form or the timed form.\<close>

definition printEvent_line :: "event \<Rightarrow> string" where
  "printEvent_line e =
     (let duration = Sub (end' e) (start e);
          location' = (if location e \<noteq> [] then '', '' @ location e else [])
      in if Time_Hour (start e) = 0 \<and> Time_Minute (start e) = 0 \<and> duration = 24 * Hour
         then Format (start e) ''Mon 2006-01-02'' @ ''              ''
                @ summary e @ location' @ ''\<newline>''
         else Format (start e) ''Mon 2006-01-02 15:04'' @ '' '' @ printEvent_d duration
                @ '' '' @ summary e @ location' @ ''\<newline>'')"

text \<open>
  The \<^verbatim>\<open>io.Writer\<close> is a state \<open>w\<close> and its \<^verbatim>\<open>Write\<close>, which returns the state after the
  write and the error, if any. \<^verbatim>\<open>printEvent\<close> returns at the first error.
\<close>

definition printEvent ::
  "('w \<Rightarrow> string \<Rightarrow> 'w \<times> error option) \<Rightarrow> 'w \<Rightarrow> event \<Rightarrow> bool \<Rightarrow> 'w \<times> error option" where
  "printEvent Write w e verbose =
     (case Write w (printEvent_line e) of
        (w1, Some err) \<Rightarrow> (w1, Some err)
      | (w1, None) \<Rightarrow>
          if verbose \<and> description e \<noteq> [] then Write w1 (description e @ ''\<newline>'')
          else (w1, None))"

text \<open>A writer that keeps what is written and never fails, as a \<^verbatim>\<open>bytes.Buffer\<close> does.\<close>

definition Buffer_Write :: "string \<Rightarrow> string \<Rightarrow> string \<times> error option" where
  "Buffer_Write w p = (w @ p, None)"

section \<open>main\<close>

text \<open>
  \<^verbatim>\<open>strconv.Quote\<close>, as the error of \<^verbatim>\<open>strconv.Atoi\<close> prints the text it was given:
  between double quotes, with a backslash before a double quote and a backslash, the
  escapes of Go for the control characters, and every other byte as it is (a byte
  from 128 on is part of a rune, which \<^verbatim>\<open>Quote\<close> writes unchanged when it is printable).
\<close>

definition Quote_char :: "char \<Rightarrow> string" where
  "Quote_char c =
     (if c = CHR 0x22 then [CHR 0x5C, CHR 0x22]
      else if c = CHR 0x5C then [CHR 0x5C, CHR 0x5C]
      else if c = CHR 0x07 then [CHR 0x5C, CHR ''a'']
      else if c = CHR 0x08 then [CHR 0x5C, CHR ''b'']
      else if c = CHR 0x0C then [CHR 0x5C, CHR ''f'']
      else if c = CHR 0x0A then [CHR 0x5C, CHR ''n'']
      else if c = CHR 0x0D then [CHR 0x5C, CHR ''r'']
      else if c = CHR 0x09 then [CHR 0x5C, CHR ''t'']
      else if c = CHR 0x0B then [CHR 0x5C, CHR ''v'']
      else if (of_char c :: nat) < 32 \<or> (of_char c :: nat) = 127
        then [CHR 0x5C, CHR ''x'', ''0123456789abcdef'' ! (of_char c div 16),
              ''0123456789abcdef'' ! (of_char c mod 16)]
      else [c])"

definition Quote :: "string \<Rightarrow> string" where
  "Quote s = [CHR 0x22] @ concat (map Quote_char s) @ [CHR 0x22]"

text \<open>
  \<^verbatim>\<open>strconv.Atoi\<close>: an optional sign and decimal digits, within the 64 bits of an \<^verbatim>\<open>int\<close>.
  The error is a \<^verbatim>\<open>*strconv.NumError\<close>; \<open>Error\<close> holds the text it prints as, which names
  the function, the input and the cause.
\<close>

definition NumError :: "string \<Rightarrow> string \<Rightarrow> error" where
  "NumError s cause = Error (''strconv.Atoi: parsing '' @ Quote s @ '': '' @ cause)"

definition Atoi :: "string \<Rightarrow> error + int" where
  "Atoi s =
     (let ds = (if s \<noteq> [] \<and> (hd s = CHR ''-'' \<or> hd s = CHR ''+'') then tl s else s)
      in if ds = [] \<or> \<not> list_all (\<lambda>c. c \<in> set ''0123456789'') ds
         then Inl (NumError s ''invalid syntax'')
         else let n = foldl (\<lambda>acc c. 10 * acc + (of_char c - 48)) 0 ds;
                  v = (if hd s = CHR ''-'' then - n else n)
              in if v < - (2 ^ 63) \<or> 2 ^ 63 - 1 < v then Inl (NumError s ''value out of range'')
                 else Inr v)"

text \<open>An int64 product: the low 64 bits of the result, read as two's complement.\<close>

definition mul64 :: "int \<Rightarrow> int \<Rightarrow> int" where
  "mul64 x y = (x * y + 2 ^ 63) mod 2 ^ 64 - 2 ^ 63"

text \<open>
  The \<^verbatim>\<open>switch durationStr\<close> of \<^verbatim>\<open>main\<close>. \<^verbatim>\<open>log.Fatalf\<close> ends the program; its message is
  the error returned here.
\<close>

definition main_duration :: "string \<Rightarrow> error + Duration" where
  "main_duration durationStr =
     (if durationStr = ''day'' then Inr (24 * Hour)
      else if durationStr = ''week'' then Inr (7 * 24 * Hour)
      else if durationStr = ''month'' then Inr (31 * 24 * Hour)
      else if durationStr = ''year'' then Inr (356 * 24 * Hour)
      else case Atoi durationStr of
             Inl err \<Rightarrow>
               Inl (Error (''Couldn't parse interval '' @ durationStr @ '': '' @ error_text err))
           | Inr i \<Rightarrow> Inr (mul64 (mul64 i 24) Hour))"

text \<open>The loop of \<^verbatim>\<open>main\<close> over the sorted events; it drops what \<^verbatim>\<open>printEvent\<close> returns.\<close>

fun main_print ::
  "('w \<Rightarrow> string \<Rightarrow> 'w \<times> error option) \<Rightarrow> 'w \<Rightarrow> event list \<Rightarrow> bool \<Rightarrow> 'w" where
  "main_print Write w [] verbose = w"
| "main_print Write w (e # es) verbose =
     main_print Write (fst (printEvent Write w e verbose)) es verbose"

section \<open>Example inputs\<close>

text \<open>
  The examples of section 8 of the specification, as values: Monday 2024-03-04, the
  weekly stand-up from 09:00 to 09:30 with the rule \<^verbatim>\<open>FREQ=WEEKLY;COUNT=3\<close>, an all-day
  event on that Monday, and a calendar for each. \<open>ex_NewRRule\<close> constructs that one
  rule and refuses every other rule text.
\<close>

definition ex_day :: Time where
  "ex_day = \<lparr>unixNano = 1709510400 * Second, loc = UTC\<rparr>"

definition ex_NewRRule :: "ROption \<Rightarrow> error + RRule" where
  "ex_NewRRule ropt =
     (if RuleText ropt = ''FREQ=WEEKLY;COUNT=3''
      then Inr [Dtstart ropt, Add (Dtstart ropt) (7 * 24 * Hour), Add (Dtstart ropt) (14 * 24 * Hour)]
      else Inl (Error ''wrong value''))"

definition ex_props :: "string \<Rightarrow> string \<Rightarrow> string \<Rightarrow> string \<Rightarrow> string \<times> error option" where
  "ex_props s d l name =
     (if name = ''SUMMARY'' then (s, None)
      else if name = ''DESCRIPTION'' then (d, None)
      else if name = ''LOCATION'' then (l, None)
      else ([], None))"

definition ex_standup :: Event where
  "ex_standup =
     \<lparr>DateTimeStart = (Add ex_day (9 * Hour), None),
      DateTimeEnd = (Add ex_day (9 * Hour + 30 * Minute), None),
      RecurrenceRule = (Some \<lparr>Dtstart = zeroTime, RuleText = ''FREQ=WEEKLY;COUNT=3''\<rparr>, None),
      Text = ex_props ''Standup'' ''Daily sync'' []\<rparr>"

definition ex_holiday :: Event where
  "ex_holiday =
     \<lparr>DateTimeStart = (ex_day, None),
      DateTimeEnd = (Add ex_day (24 * Hour), None),
      RecurrenceRule = (None, None),
      Text = ex_props ''Holiday'' [] ''Paris''\<rparr>"

text \<open>An event with a rule that cannot be constructed, and one with nothing resolved.\<close>

definition ex_broken :: Event where
  "ex_broken =
     \<lparr>DateTimeStart = (Add ex_day (9 * Hour), None),
      DateTimeEnd = (Add ex_day (10 * Hour), None),
      RecurrenceRule = (Some \<lparr>Dtstart = zeroTime, RuleText = ''FREQ=WEEKLY;BYSECOND=61''\<rparr>, None),
      Text = ex_props ''Broken'' [] []\<rparr>"

definition ex_unresolved :: Event where
  "ex_unresolved =
     \<lparr>DateTimeStart = (zeroTime, Some (Error ''ical: malformed DTSTART'')),
      DateTimeEnd = (zeroTime, Some (Error ''ical: malformed DTEND'')),
      RecurrenceRule = (None, None),
      Text = (\<lambda>name. ([], Some (Error ''ical: unexpected value type'')))\<rparr>"

definition ex_work :: Calendar where
  "ex_work = \<lparr>Path = ''/dav/work/'', Name = ''work''\<rparr>"

definition ex_home :: Calendar where
  "ex_home = \<lparr>Path = ''/dav/home/'', Name = ''home''\<rparr>"

definition ex_down :: Calendar where
  "ex_down = \<lparr>Path = ''/dav/down/'', Name = ''down''\<rparr>"

text \<open>
  A server that holds the stand-up and the broken event in one calendar, the holiday in
  another, and does not answer for any other path.
\<close>

definition ex_QueryCalendar :: "string \<Rightarrow> CalendarQuery \<Rightarrow> error + CalendarObject list" where
  "ex_QueryCalendar path query =
     (if path = ''/dav/work/'' then Inr [\<lparr>Events = [ex_broken, ex_standup]\<rparr>]
      else if path = ''/dav/home/'' then Inr [\<lparr>Events = [ex_holiday]\<rparr>]
      else Inl (Error ''503 Service Unavailable''))"

definition ex_occurrence :: "int \<Rightarrow> event" where
  "ex_occurrence week =
     \<lparr>start = Add ex_day (week * 7 * 24 * Hour + 9 * Hour),
      end' = Add ex_day (week * 7 * 24 * Hour + 9 * Hour + 30 * Minute),
      summary = ''Standup'', description = [], location = []\<rparr>"

definition ex_holiday_occurrence :: event where
  "ex_holiday_occurrence =
     \<lparr>start = ex_day, end' = Add ex_day (24 * Hour),
      summary = ''Holiday'', description = [], location = ''Paris''\<rparr>"

text \<open>The window of the examples: from that Monday 00:00 to the third Monday 09:00.\<close>

definition ex_wend :: Time where
  "ex_wend = Add ex_day (14 * 24 * Hour + 9 * Hour)"

text \<open>The same server with every description text removed from its answers.\<close>

definition ex_QueryCalendar_plain :: "string \<Rightarrow> CalendarQuery \<Rightarrow> error + CalendarObject list" where
  "ex_QueryCalendar_plain path query =
     map_sum id (map hideDescriptions) (ex_QueryCalendar path query)"

text \<open>
  Thirteen occurrences in the order they are produced: twelve that start at the same
  time, named a to l, and after them one that starts an hour earlier.
\<close>

definition ex_tie :: "string \<Rightarrow> event" where
  "ex_tie name =
     \<lparr>start = Add ex_day (9 * Hour), end' = Add ex_day (10 * Hour),
      summary = name, description = [], location = []\<rparr>"

definition ex_early :: event where
  "ex_early =
     \<lparr>start = Add ex_day (8 * Hour), end' = Add ex_day (9 * Hour),
      summary = ''early'', description = [], location = []\<rparr>"

definition ex_ties :: "event list" where
  "ex_ties =
     [ex_tie ''a'', ex_tie ''b'', ex_tie ''c'', ex_tie ''d'', ex_tie ''e'', ex_tie ''f'',
      ex_tie ''g'', ex_tie ''h'', ex_tie ''i'', ex_tie ''j'', ex_tie ''k'', ex_tie ''l'',
      ex_early]"


text \<open>The same thirteen in another order: the early one, then the twelve with g first and a seventh.\<close>

definition ex_part :: "event list" where
  "ex_part =
     [ex_early, ex_tie ''g'', ex_tie ''c'', ex_tie ''d'', ex_tie ''e'', ex_tie ''f'',
      ex_tie ''a'', ex_tie ''h'', ex_tie ''i'', ex_tie ''j'', ex_tie ''k'', ex_tie ''l'',
      ex_tie ''b'']"

text \<open>
  An event whose RRULE go-ical cannot parse: \<^verbatim>\<open>RecurrenceRule()\<close> returns no rule and an
  error. An event with the weekly rule of which neither end can be resolved.
\<close>

definition ex_unparsed :: Event where
  "ex_unparsed =
     \<lparr>DateTimeStart = (Add ex_day (9 * Hour), None),
      DateTimeEnd = (Add ex_day (10 * Hour), None),
      RecurrenceRule = (None, Some (Error ''ical: error parsing rrule: wrong format'')),
      Text = ex_props ''Unparsed'' [] []\<rparr>"

definition ex_unparsed_occurrence :: event where
  "ex_unparsed_occurrence =
     \<lparr>start = Add ex_day (9 * Hour), end' = Add ex_day (10 * Hour),
      summary = ''Unparsed'', description = [], location = []\<rparr>"

definition ex_unresolved_weekly :: Event where
  "ex_unresolved_weekly =
     \<lparr>DateTimeStart = (zeroTime, Some (Error ''ical: malformed DTSTART'')),
      DateTimeEnd = (zeroTime, Some (Error ''ical: malformed DTEND'')),
      RecurrenceRule = (Some \<lparr>Dtstart = zeroTime, RuleText = ''FREQ=WEEKLY;COUNT=3''\<rparr>, None),
      Text = (\<lambda>name. ([], Some (Error ''ical: unexpected value type'')))\<rparr>"

text \<open>An event without a rule that has a description, and its occurrence.\<close>

definition ex_review :: Event where
  "ex_review =
     \<lparr>DateTimeStart = (Add ex_day (14 * Hour), None),
      DateTimeEnd = (Add ex_day (15 * Hour), None),
      RecurrenceRule = (None, None),
      Text = ex_props ''Review'' ''Bring the slides'' ''Room 2''\<rparr>"

definition ex_review_occurrence :: event where
  "ex_review_occurrence =
     \<lparr>start = Add ex_day (14 * Hour), end' = Add ex_day (15 * Hour),
      summary = ''Review'', description = ''Bring the slides'', location = ''Room 2''\<rparr>"
section \<open>Lemmas on the operations\<close>

text \<open>\<^verbatim>\<open>Add\<close> and \<^verbatim>\<open>Sub\<close>.\<close>

lemma Sub_Add_cancel:
  "minDuration \<le> d \<Longrightarrow> d \<le> maxDuration \<Longrightarrow> Sub (Add t d) t = d"
  by (simp add: Sub_def Add_def)

lemma Sub_in_range: "minDuration \<le> Sub t u \<and> Sub t u \<le> maxDuration"
  by (simp add: Sub_def Let_def minDuration_def maxDuration_def)

lemma Sub_exact:
  "minDuration \<le> unixNano t - unixNano u \<Longrightarrow> unixNano t - unixNano u \<le> maxDuration
     \<Longrightarrow> Sub t u = unixNano t - unixNano u"
  by (simp add: Sub_def Let_def)

subsection \<open>The loops of queryEvents\<close>

text \<open>Each loop appends, to the log and to the slice, what its elements contribute.\<close>

lemma queryEvents_events_eq:
  "queryEvents_events NewRRule wstart wend incl evs (lg, es) =
     (lg @ concat (map (event_log NewRRule wstart wend incl) evs),
      es @ concat (map (event_occurrences NewRRule wstart wend incl) evs))"
  by (induction evs arbitrary: lg es)
     (auto simp: event_log_def event_occurrences_def split: sum.splits)

lemma queryEvents_objs_eq:
  "queryEvents_objs NewRRule wstart wend incl objs (lg, es) =
     (lg @ concat (map (object_log NewRRule wstart wend incl) objs),
      es @ concat (map (object_occurrences NewRRule wstart wend incl) objs))"
  by (induction objs arbitrary: lg es)
     (auto simp: queryEvents_events_eq object_log_def object_occurrences_def)

lemma queryEvents_calendars_eq:
  "queryEvents_calendars NewRRule QueryCalendar (queryEvents_query wstart wend incl)
     wstart wend incl cs (lg, es) =
     (lg @ concat (map (calendar_log NewRRule QueryCalendar wstart wend incl) cs),
      es @ concat (map (calendar_occurrences NewRRule QueryCalendar wstart wend incl) cs))"
  by (induction cs arbitrary: lg es)
     (auto simp: queryEvents_objs_eq calendar_log_def calendar_occurrences_def split: sum.splits)

lemma queryEvents_eq:
  "queryEvents NewRRule QueryCalendar cs wstart wend incl =
     (concat (map (calendar_log NewRRule QueryCalendar wstart wend incl) cs),
      Inr (SortFunc (concat (map (calendar_occurrences NewRRule QueryCalendar wstart wend incl) cs))
             (\<lambda>a b. Compare (start a) (start b))))"
  by (simp add: queryEvents_def Let_def queryEvents_calendars_eq)

subsection \<open>Evaluating the examples\<close>

text \<open>A slice of at most 12 elements is sorted by insertion sort alone.\<close>

lemma SortFunc_short:
  "length x \<le> 12 \<Longrightarrow> SortFunc x cmp = insertionSortCmpFunc cmp x 0 (length x)"
  by (simp add: SortFunc_def Let_def pdqsortCmpFunc.simps [of _ _ 0])

lemmas ex_defs =
  ex_standup_def ex_broken_def ex_holiday_def ex_unresolved_def ex_NewRRule_def ex_props_def
  ex_day_def ex_wend_def ex_occurrence_def ex_holiday_occurrence_def ex_QueryCalendar_def
  ex_down_def ex_work_def ex_home_def

lemmas time_defs =
  Between_def Before_def After_def Compare_def Add_def Sub_def Let_def Hour_def Minute_def
  Second_def minDuration_def maxDuration_def zeroTime_def UTC_def

lemmas prop_defs = PropSummary_def PropDescription_def PropLocation_def

lemma ex_broken_parse:
  "parseEvent ex_NewRRule ex_broken ex_day ex_wend incl = Inl (Error ''wrong value'')"
  by (simp add: parseEvent_def ex_defs time_defs)

lemma ex_standup_parse:
  "parseEvent ex_NewRRule ex_standup ex_day ex_wend False
     = Inr [ex_occurrence 0, ex_occurrence 1, ex_occurrence 2]"
  by (simp add: parseEvent_def ex_defs time_defs prop_defs)

lemma ex_holiday_parse:
  "parseEvent ex_NewRRule ex_holiday ex_day ex_wend False = Inr [ex_holiday_occurrence]"
  by (simp add: parseEvent_def ex_defs time_defs prop_defs)

lemma ex_sorted:
  "SortFunc [ex_occurrence 0, ex_occurrence 1, ex_occurrence 2, ex_holiday_occurrence]
     (\<lambda>a b. Compare (start a) (start b))
     = [ex_holiday_occurrence, ex_occurrence 0, ex_occurrence 1, ex_occurrence 2]"
  by (simp add: SortFunc_short insertionSortCmpFunc_def insertionSort_outer.simps
      insertionSort_inner.simps swap_def ex_defs time_defs)

lemma ex_queryEvents:
  "queryEvents ex_NewRRule ex_QueryCalendar [ex_work, ex_down, ex_home] ex_day ex_wend False
     = ([''parseEvent: wrong value'', ''QueryCalendar(down): 503 Service Unavailable''],
        Inr [ex_holiday_occurrence, ex_occurrence 0, ex_occurrence 1, ex_occurrence 2])"
proof -
  have "calendar_occurrences ex_NewRRule ex_QueryCalendar ex_day ex_wend False ex_work
          = [ex_occurrence 0, ex_occurrence 1, ex_occurrence 2]"
    by (simp add: calendar_occurrences_def object_occurrences_def event_occurrences_def
        ex_broken_parse ex_standup_parse ex_QueryCalendar_def ex_work_def)
  moreover have "calendar_occurrences ex_NewRRule ex_QueryCalendar ex_day ex_wend False ex_home
          = [ex_holiday_occurrence]"
    by (simp add: calendar_occurrences_def object_occurrences_def event_occurrences_def
        ex_holiday_parse ex_QueryCalendar_def ex_home_def)
  moreover have "calendar_occurrences ex_NewRRule ex_QueryCalendar ex_day ex_wend False ex_down = []"
    by (simp add: calendar_occurrences_def ex_QueryCalendar_def ex_down_def)
  moreover have "calendar_log ex_NewRRule ex_QueryCalendar ex_day ex_wend False ex_work
          = [''parseEvent: wrong value'']"
    by (simp add: calendar_log_def object_log_def event_log_def error_text_def
        ex_broken_parse ex_standup_parse ex_QueryCalendar_def ex_work_def)
  moreover have "calendar_log ex_NewRRule ex_QueryCalendar ex_day ex_wend False ex_home = []"
    by (simp add: calendar_log_def object_log_def event_log_def
        ex_holiday_parse ex_QueryCalendar_def ex_home_def)
  moreover have "calendar_log ex_NewRRule ex_QueryCalendar ex_day ex_wend False ex_down
          = [''QueryCalendar(down): 503 Service Unavailable'']"
    by (simp add: calendar_log_def error_text_def ex_QueryCalendar_def ex_down_def)
  ultimately show ?thesis
    by (simp add: queryEvents_eq ex_sorted)
qed

subsection \<open>Evaluating the formats\<close>

lemma digits_lt10: "n < 10 \<Longrightarrow> digits n = [''0123456789'' ! nat n]"
  by (subst digits.simps) simp

lemma digits_ge10:
  "10 \<le> n \<Longrightarrow> digits n = digits (n div 10) @ [''0123456789'' ! nat (n mod 10)]"
  by (subst digits.simps) simp

lemma digits_two:
  "10 \<le> n \<Longrightarrow> n < 100 \<Longrightarrow>
     digits n = [''0123456789'' ! nat (n div 10), ''0123456789'' ! nat (n mod 10)]"
  by (simp add: digits_ge10 digits_lt10)

lemma Sprintf_2v_lt10: "0 \<le> h \<Longrightarrow> h < 10 \<Longrightarrow> Sprintf_2v h = [CHR '' '', ''0123456789'' ! nat h]"
  by (simp add: Sprintf_2v_def appendInt_def digits_lt10)

lemma Sprintf_2v_two:
  "10 \<le> h \<Longrightarrow> h < 100 \<Longrightarrow>
     Sprintf_2v h = [''0123456789'' ! nat (h div 10), ''0123456789'' ! nat (h mod 10)]"
  by (simp add: Sprintf_2v_def appendInt_def digits_two)

lemma Sprintf_02v_two:
  "0 \<le> m \<Longrightarrow> m < 100 \<Longrightarrow>
     Sprintf_02v m = [''0123456789'' ! nat (m div 10), ''0123456789'' ! nat (m mod 10)]"
proof (cases "m < 10")
  case True
  moreover assume "0 \<le> m"
  ultimately show ?thesis
    by (simp add: Sprintf_02v_def appendInt_def digits_lt10)
next
  case False
  moreover assume "m < 100"
  ultimately show ?thesis
    by (simp add: Sprintf_02v_def appendInt_def digits_two)
qed

lemma Format_date:
  "Format t ''Mon 2006-01-02'' =
     shortDayNames ! nat (Time_Weekday t) @ '' '' @ appendInt (fst (Time_Date t)) 4 @ ''-''
       @ appendInt (fst (snd (Time_Date t))) 2 @ ''-'' @ appendInt (snd (snd (Time_Date t))) 2"
  by (simp add: Format.simps)

lemma Format_date_time:
  "Format t ''Mon 2006-01-02 15:04'' =
     Format t ''Mon 2006-01-02'' @ '' '' @ appendInt (Time_Hour t) 2 @ '':''
       @ appendInt (Time_Minute t) 2"
  by (simp add: Format.simps)

lemma ex_day_date: "Time_Date ex_day = (2024, 3, 4)"
  by code_simp

lemma ex_day_weekday: "Time_Weekday ex_day = 1"
  by code_simp

lemma ex_day_clock: "Time_Hour ex_day = 0" "Time_Minute ex_day = 0"
  by code_simp+

lemma ex_day_Format: "Format ex_day ''Mon 2006-01-02'' = ''Mon 2024-03-04''"
  by (simp add: Format_date ex_day_date ex_day_weekday shortDayNames_def appendInt_def
      digits_lt10 digits_ge10)

lemma ex_standup_Format:
  "Format (Add ex_day (9 * Hour)) ''Mon 2006-01-02 15:04'' = ''Mon 2024-03-04 09:00''"
proof -
  have "Time_Date (Add ex_day (9 * Hour)) = (2024, 3, 4)"
    and "Time_Weekday (Add ex_day (9 * Hour)) = 1"
    and "Time_Hour (Add ex_day (9 * Hour)) = 9"
    and "Time_Minute (Add ex_day (9 * Hour)) = 0"
    by code_simp+
  then show ?thesis
    by (simp add: Format_date_time Format_date shortDayNames_def appendInt_def
        digits_lt10 digits_ge10)
qed

lemma ex_holiday_line:
  "printEvent_line ex_holiday_occurrence = ''Mon 2024-03-04              Holiday, Paris\<newline>''"
proof -
  have "Sub (Add ex_day (24 * Hour)) ex_day = 24 * Hour"
    by (simp add: time_defs)
  then show ?thesis
    by (simp add: printEvent_line_def ex_holiday_occurrence_def ex_day_Format ex_day_clock)
qed

lemma printEvent_d_90: "printEvent_d (90 * Minute) = '' 1h30m''"
  by (simp add: printEvent_d_def Sprintf_2v_lt10 Sprintf_02v_two Hour_def Minute_def Second_def)

section \<open>Expansion of one event\<close>

text \<open>
  C1. When the event carries a recurrence rule and the rule is constructed, every
  occurrence \<^verbatim>\<open>parseEvent\<close> returns starts at a timestamp of the rule that is neither
  before the start of the window nor after its end (both ends belong to the window),
  and its end minus its start, taken with \<^verbatim>\<open>Sub\<close> as \<^verbatim>\<open>printEvent\<close> takes it, is the
  duration \<^verbatim>\<open>dtend.Sub(dtstart)\<close> computed before the expansion. Which timestamps lie in
  the window is decided by \<^verbatim>\<open>Between\<close> of rrule-go, here as the specification words it.
\<close>

theorem parseEvent_recurring:
  assumes "fst (RecurrenceRule e) = Some ropt"
    and "parseEvent NewRRule e wstart wend incl = Inr occs"
  shows "\<exists>rr. NewRRule (ropt\<lparr>Dtstart := fst (DateTimeStart e)\<rparr>) = Inr rr
           \<and> map start occs
               = filter (\<lambda>t. unixNano wstart \<le> unixNano t \<and> unixNano t \<le> unixNano wend) rr
           \<and> (\<forall>oc \<in> set occs.
                 unixNano wstart \<le> unixNano (start oc) \<and> unixNano (start oc) \<le> unixNano wend
                 \<and> Sub (end' oc) (start oc) = Sub (fst (DateTimeEnd e)) (fst (DateTimeStart e)))"
proof (cases "NewRRule (ropt\<lparr>Dtstart := fst (DateTimeStart e)\<rparr>)")
  case (Inl err)
  with assms show ?thesis by (simp add: parseEvent_def Let_def)
next
  case (Inr rr)
  let ?d = "Sub (fst (DateTimeEnd e)) (fst (DateTimeStart e))"
  let ?mk = "\<lambda>t. \<lparr>start = t, end' = Add t ?d, summary = fst (Text e PropSummary),
                    description = (if incl then fst (Text e PropDescription) else []),
                    location = fst (Text e PropLocation)\<rparr>"
  have occs: "occs = map ?mk (Between rr wstart wend True)"
    using assms Inr by (simp add: parseEvent_def Let_def)
  have btw: "Between rr wstart wend True
               = filter (\<lambda>t. unixNano wstart \<le> unixNano t \<and> unixNano t \<le> unixNano wend) rr"
    by (simp add: Between_def Before_def After_def not_less)
  have starts: "map start occs = Between rr wstart wend True"
    by (simp add: occs comp_def)
  have each: "unixNano wstart \<le> unixNano (start oc) \<and> unixNano (start oc) \<le> unixNano wend
                \<and> Sub (end' oc) (start oc) = ?d" if "oc \<in> set occs" for oc
  proof -
    from that obtain t where t: "t \<in> set (Between rr wstart wend True)" and oc: "oc = ?mk t"
      by (auto simp: occs)
    from t have "unixNano wstart \<le> unixNano t \<and> unixNano t \<le> unixNano wend"
      by (simp add: btw)
    moreover have "Sub (Add t ?d) t = ?d"
      using Sub_in_range [of "fst (DateTimeEnd e)" "fst (DateTimeStart e)"]
      by (simp add: Sub_Add_cancel)
    ultimately show ?thesis by (simp add: oc)
  qed
  show ?thesis
    using Inr starts btw each by auto
qed

text \<open>
  C2. An event for which \<^verbatim>\<open>e.Props.RecurrenceRule()\<close> gives no rule expands to exactly
  one occurrence, from the event's start to the event's end, and never to an error;
  when the end is the start, the one occurrence has duration zero. The claim asks for
  an end that does not precede the start; the code does not need that.
\<close>

theorem parseEvent_no_rule:
  assumes "fst (RecurrenceRule e) = None"
  shows "\<exists>ee. parseEvent NewRRule e wstart wend incl = Inr [ee]
           \<and> start ee = fst (DateTimeStart e)
           \<and> end' ee = fst (DateTimeEnd e)
           \<and> (if fst (DateTimeEnd e) = fst (DateTimeStart e) then Sub (end' ee) (start ee) = 0
               else True)"
  using assms by (simp add: parseEvent_def Let_def Sub_def minDuration_def maxDuration_def)

text \<open>
  The stand-up over the window from Monday 00:00 to the third Monday 09:00: the third
  occurrence starts at the very end of the window and is returned.
\<close>

theorem parseEvent_recurring_witness:
  "fst (RecurrenceRule ex_standup) = Some \<lparr>Dtstart = zeroTime, RuleText = ''FREQ=WEEKLY;COUNT=3''\<rparr>
   \<and> parseEvent ex_NewRRule ex_standup ex_day (Add ex_day (14 * 24 * Hour + 9 * Hour)) False
       = Inr [ex_occurrence 0, ex_occurrence 1, ex_occurrence 2]
   \<and> Sub (end' (ex_occurrence 2)) (start (ex_occurrence 2)) = 30 * Minute
   \<and> unixNano (start (ex_occurrence 2)) = unixNano (Add ex_day (14 * 24 * Hour + 9 * Hour))"
proof -
  have h1: "fst (RecurrenceRule ex_standup)
              = Some \<lparr>Dtstart = zeroTime, RuleText = ''FREQ=WEEKLY;COUNT=3''\<rparr>"
    by (simp add: ex_standup_def)
  have h2: "parseEvent ex_NewRRule ex_standup ex_day (Add ex_day (14 * 24 * Hour + 9 * Hour)) False
              = Inr [ex_occurrence 0, ex_occurrence 1, ex_occurrence 2]"
    by (simp add: parseEvent_def ex_standup_def ex_NewRRule_def ex_props_def ex_occurrence_def
        ex_day_def Between_def Before_def After_def Add_def Sub_def Let_def PropSummary_def
        PropLocation_def Hour_def Minute_def Second_def minDuration_def maxDuration_def)
  from parseEvent_recurring [OF h1 h2]
  have "\<forall>oc \<in> set [ex_occurrence 0, ex_occurrence 1, ex_occurrence 2].
          Sub (end' oc) (start oc)
            = Sub (fst (DateTimeEnd ex_standup)) (fst (DateTimeStart ex_standup))"
    by blast
  then have "Sub (end' (ex_occurrence 2)) (start (ex_occurrence 2)) = 30 * Minute"
    by (simp add: ex_standup_def ex_day_def Add_def Sub_def Let_def Hour_def Minute_def
        Second_def minDuration_def maxDuration_def)
  moreover have "unixNano (start (ex_occurrence 2))
                   = unixNano (Add ex_day (14 * 24 * Hour + 9 * Hour))"
    by (simp add: ex_occurrence_def Add_def)
  ultimately show ?thesis using h1 h2 by simp
qed

theorem parseEvent_no_rule_witness:
  "fst (RecurrenceRule ex_unresolved) = None
   \<and> parseEvent ex_NewRRule ex_unresolved ex_day (Add ex_day (24 * Hour)) True
       = Inr [\<lparr>start = zeroTime, end' = zeroTime, summary = [], description = [], location = []\<rparr>]
   \<and> Sub zeroTime zeroTime = 0"
proof -
  have h: "fst (RecurrenceRule ex_unresolved) = None"
    by (simp add: ex_unresolved_def)
  from parseEvent_no_rule [OF h, of ex_NewRRule ex_day "Add ex_day (24 * Hour)" True]
  obtain ee where ee: "parseEvent ex_NewRRule ex_unresolved ex_day (Add ex_day (24 * Hour)) True = Inr [ee]"
    and z: "Sub (end' ee) (start ee) = 0"
    by (auto simp: ex_unresolved_def split: if_splits)
  have "parseEvent ex_NewRRule ex_unresolved ex_day (Add ex_day (24 * Hour)) True
          = Inr [\<lparr>start = zeroTime, end' = zeroTime, summary = [], description = [], location = []\<rparr>]"
    by (simp add: parseEvent_def ex_unresolved_def Let_def)
  with ee z h show ?thesis by auto
qed

section \<open>Failures of one calendar or one event\<close>

text \<open>
  C3. When the query for the calendar \<open>c\<close> fails, \<^verbatim>\<open>queryEvents\<close> still returns events
  and no error; the events are the sorted concatenation of what each other calendar
  contributes, the same as if \<open>c\<close> had not been listed; and the log holds the message
  for \<open>c\<close> between the messages of the calendars before and after it.
\<close>

theorem queryEvents_calendar_failure:
  assumes "QueryCalendar (Path c) (queryEvents_query wstart wend incl) = Inl err"
  shows "snd (queryEvents NewRRule QueryCalendar (cs1 @ c # cs2) wstart wend incl)
           = Inr (SortFunc
                    (concat (map (calendar_occurrences NewRRule QueryCalendar wstart wend incl)
                               (cs1 @ cs2)))
                    (\<lambda>a b. Compare (start a) (start b)))
         \<and> snd (queryEvents NewRRule QueryCalendar (cs1 @ c # cs2) wstart wend incl)
           = snd (queryEvents NewRRule QueryCalendar (cs1 @ cs2) wstart wend incl)
         \<and> fst (queryEvents NewRRule QueryCalendar (cs1 @ c # cs2) wstart wend incl)
           = concat (map (calendar_log NewRRule QueryCalendar wstart wend incl) cs1)
               @ [''QueryCalendar('' @ Name c @ ''): '' @ error_text err]
               @ concat (map (calendar_log NewRRule QueryCalendar wstart wend incl) cs2)"
proof -
  have "calendar_occurrences NewRRule QueryCalendar wstart wend incl c = []"
    using assms by (simp add: calendar_occurrences_def)
  moreover have "calendar_log NewRRule QueryCalendar wstart wend incl c
                   = [''QueryCalendar('' @ Name c @ ''): '' @ error_text err]"
    using assms by (simp add: calendar_log_def)
  ultimately show ?thesis by (simp add: queryEvents_eq)
qed

text \<open>
  Three calendars, the second of which does not answer: the holiday of the third and
  the stand-ups of the first are returned, in order of their starts.
\<close>

theorem queryEvents_calendar_failure_witness:
  "ex_QueryCalendar (Path ex_down) (queryEvents_query ex_day ex_wend False)
     = Inl (Error ''503 Service Unavailable'')
   \<and> queryEvents ex_NewRRule ex_QueryCalendar ([ex_work] @ ex_down # [ex_home]) ex_day ex_wend False
     = ([''parseEvent: wrong value'', ''QueryCalendar(down): 503 Service Unavailable''],
        Inr [ex_holiday_occurrence, ex_occurrence 0, ex_occurrence 1, ex_occurrence 2])
   \<and> snd (queryEvents ex_NewRRule ex_QueryCalendar ([ex_work] @ [ex_home]) ex_day ex_wend False)
     = Inr [ex_holiday_occurrence, ex_occurrence 0, ex_occurrence 1, ex_occurrence 2]"
proof -
  have h: "ex_QueryCalendar (Path ex_down) (queryEvents_query ex_day ex_wend False)
             = Inl (Error ''503 Service Unavailable'')"
    by (simp add: ex_QueryCalendar_def ex_down_def)
  note th = queryEvents_calendar_failure
    [where QueryCalendar = ex_QueryCalendar and c = ex_down and wstart = ex_day
       and wend = ex_wend and incl = False and err = "Error ''503 Service Unavailable''"
       and NewRRule = ex_NewRRule and ?cs1.0 = "[ex_work]" and ?cs2.0 = "[ex_home]", OF h]
  have "snd (queryEvents ex_NewRRule ex_QueryCalendar ([ex_work] @ [ex_home]) ex_day ex_wend False)
          = snd (queryEvents ex_NewRRule ex_QueryCalendar ([ex_work] @ ex_down # [ex_home])
                   ex_day ex_wend False)"
    by (rule th [THEN conjunct2, THEN conjunct1, symmetric])
  with h ex_queryEvents show ?thesis by simp
qed

lemma event_failure:
  assumes "parseEvent NewRRule e wstart wend incl = Inl err"
  shows "event_occurrences NewRRule wstart wend incl e = []"
    and "event_log NewRRule wstart wend incl e = [''parseEvent: '' @ error_text err]"
  using assms by (simp_all add: event_occurrences_def event_log_def)

lemma object_without_event:
  assumes "event_occurrences NewRRule wstart wend incl e = []"
  shows "object_occurrences NewRRule wstart wend incl \<lparr>Events = evs1 @ e # evs2\<rparr>
           = object_occurrences NewRRule wstart wend incl \<lparr>Events = evs1 @ evs2\<rparr>"
  using assms by (simp add: object_occurrences_def)

lemma calendar_without_event:
  assumes "event_occurrences NewRRule wstart wend incl e = []"
    and "Q (Path c) (queryEvents_query wstart wend incl)
           = Inr (objs1 @ \<lparr>Events = evs1 @ e # evs2\<rparr> # objs2)"
  shows "calendar_occurrences NewRRule Q wstart wend incl c'
           = calendar_occurrences NewRRule
               (Q (Path c := \<lambda>q. Inr (objs1 @ \<lparr>Events = evs1 @ evs2\<rparr> # objs2)))
               wstart wend incl c'"
proof (cases "Path c' = Path c")
  case True
  then show ?thesis
    using assms(2) object_without_event [OF assms(1), of evs1 evs2]
    by (simp add: calendar_occurrences_def)
next
  case False
  then show ?thesis by (simp add: calendar_occurrences_def)
qed

text \<open>
  C4. The rule of the event \<open>e\<close> is one that go-ical has parsed and \<^verbatim>\<open>rrule.NewRRule\<close>
  refuses. Then \<^verbatim>\<open>parseEvent\<close> returns the error of \<^verbatim>\<open>rrule.NewRRule\<close> as it is. Let the
  server answer, for the calendar \<open>c\<close>, with objects of which one holds \<open>e\<close> between
  the events \<open>evs1\<close> and \<open>evs2\<close>: \<^verbatim>\<open>queryEvents\<close> logs the error for \<open>e\<close>, between what
  it logs for the events, objects and calendars before and after; the events it
  returns, for any list of calendars, are those it returns when the server's answer
  is the same without \<open>e\<close>; and it returns events, never an error.
\<close>

theorem parseEvent_rule_failure:
  assumes "fst (RecurrenceRule e) = Some ropt"
    and "NewRRule (ropt\<lparr>Dtstart := fst (DateTimeStart e)\<rparr>) = Inl err"
    and "QueryCalendar (Path c) (queryEvents_query wstart wend incl)
           = Inr (objs1 @ \<lparr>Events = evs1 @ e # evs2\<rparr> # objs2)"
  shows "parseEvent NewRRule e wstart wend incl = Inl err
         \<and> fst (queryEvents NewRRule QueryCalendar (cs1 @ c # cs2) wstart wend incl)
           = concat (map (calendar_log NewRRule QueryCalendar wstart wend incl) cs1)
               @ concat (map (object_log NewRRule wstart wend incl) objs1)
               @ concat (map (event_log NewRRule wstart wend incl) evs1)
               @ [''parseEvent: '' @ error_text err]
               @ concat (map (event_log NewRRule wstart wend incl) evs2)
               @ concat (map (object_log NewRRule wstart wend incl) objs2)
               @ concat (map (calendar_log NewRRule QueryCalendar wstart wend incl) cs2)
         \<and> snd (queryEvents NewRRule QueryCalendar cs wstart wend incl)
           = snd (queryEvents NewRRule
                    (QueryCalendar (Path c := \<lambda>q. Inr (objs1 @ \<lparr>Events = evs1 @ evs2\<rparr> # objs2)))
                    cs wstart wend incl)
         \<and> snd (queryEvents NewRRule QueryCalendar cs wstart wend incl)
           = Inr (SortFunc
                    (concat (map (calendar_occurrences NewRRule QueryCalendar wstart wend incl) cs))
                    (\<lambda>a b. Compare (start a) (start b)))"
proof -
  have p: "parseEvent NewRRule e wstart wend incl = Inl err"
    using assms(1,2) by (simp add: parseEvent_def Let_def)
  note ev = event_failure [OF p]
  have "calendar_log NewRRule QueryCalendar wstart wend incl c
          = concat (map (object_log NewRRule wstart wend incl) objs1)
              @ concat (map (event_log NewRRule wstart wend incl) evs1)
              @ [''parseEvent: '' @ error_text err]
              @ concat (map (event_log NewRRule wstart wend incl) evs2)
              @ concat (map (object_log NewRRule wstart wend incl) objs2)"
    using assms(3) ev(2) by (simp add: calendar_log_def object_log_def)
  moreover have "calendar_occurrences NewRRule QueryCalendar wstart wend incl
          = calendar_occurrences NewRRule
              (QueryCalendar (Path c := \<lambda>q. Inr (objs1 @ \<lparr>Events = evs1 @ evs2\<rparr> # objs2)))
              wstart wend incl"
    using calendar_without_event [where Q = QueryCalendar and c = c, OF ev(1) assms(3)]
    by (simp add: fun_eq_iff)
  ultimately show ?thesis using p by (simp add: queryEvents_eq)
qed

text \<open>
  The server of the examples holds the event with the refused rule before the stand-up
  in the one object of the calendar \<open>work\<close>: the error is logged and the result is the
  one for a server that never held the event.
\<close>

theorem parseEvent_rule_failure_witness:
  "fst (RecurrenceRule ex_broken) = Some \<lparr>Dtstart = zeroTime, RuleText = ''FREQ=WEEKLY;BYSECOND=61''\<rparr>
   \<and> ex_NewRRule (\<lparr>Dtstart = zeroTime, RuleText = ''FREQ=WEEKLY;BYSECOND=61''\<rparr>
                    \<lparr>Dtstart := fst (DateTimeStart ex_broken)\<rparr>) = Inl (Error ''wrong value'')
   \<and> ex_QueryCalendar (Path ex_work) (queryEvents_query ex_day ex_wend False)
       = Inr ([] @ \<lparr>Events = [] @ ex_broken # [ex_standup]\<rparr> # [])
   \<and> parseEvent ex_NewRRule ex_broken ex_day ex_wend False = Inl (Error ''wrong value'')
   \<and> queryEvents ex_NewRRule ex_QueryCalendar [ex_work, ex_down, ex_home] ex_day ex_wend False
       = ([''parseEvent: wrong value'', ''QueryCalendar(down): 503 Service Unavailable''],
          Inr [ex_holiday_occurrence, ex_occurrence 0, ex_occurrence 1, ex_occurrence 2])
   \<and> snd (queryEvents ex_NewRRule
             (ex_QueryCalendar (Path ex_work := \<lambda>q. Inr ([] @ \<lparr>Events = [] @ [ex_standup]\<rparr> # [])))
             [ex_work, ex_down, ex_home] ex_day ex_wend False)
       = Inr [ex_holiday_occurrence, ex_occurrence 0, ex_occurrence 1, ex_occurrence 2]"
proof -
  have h1: "fst (RecurrenceRule ex_broken)
              = Some \<lparr>Dtstart = zeroTime, RuleText = ''FREQ=WEEKLY;BYSECOND=61''\<rparr>"
    by (simp add: ex_broken_def)
  have h2: "ex_NewRRule (\<lparr>Dtstart = zeroTime, RuleText = ''FREQ=WEEKLY;BYSECOND=61''\<rparr>
                          \<lparr>Dtstart := fst (DateTimeStart ex_broken)\<rparr>) = Inl (Error ''wrong value'')"
    by (simp add: ex_NewRRule_def)
  have h3: "ex_QueryCalendar (Path ex_work) (queryEvents_query ex_day ex_wend False)
              = Inr ([] @ \<lparr>Events = [] @ ex_broken # [ex_standup]\<rparr> # [])"
    by (simp add: ex_QueryCalendar_def ex_work_def)
  note th = parseEvent_rule_failure
    [where e = ex_broken and NewRRule = ex_NewRRule and err = "Error ''wrong value''"
       and ropt = "\<lparr>Dtstart = zeroTime, RuleText = ''FREQ=WEEKLY;BYSECOND=61''\<rparr>"
       and wstart = ex_day and wend = ex_wend and incl = False and ?evs1.0 = "[]"
       and ?evs2.0 = "[ex_standup]" and ?objs1.0 = "[]" and ?objs2.0 = "[]"
       and QueryCalendar = ex_QueryCalendar and c = ex_work
       and cs = "[ex_work, ex_down, ex_home]", OF h1 h2 h3]
  have "parseEvent ex_NewRRule ex_broken ex_day ex_wend False = Inl (Error ''wrong value'')"
    by (rule th [THEN conjunct1])
  moreover
  have "snd (queryEvents ex_NewRRule
             (ex_QueryCalendar (Path ex_work := \<lambda>q. Inr ([] @ \<lparr>Events = [] @ [ex_standup]\<rparr> # [])))
             [ex_work, ex_down, ex_home] ex_day ex_wend False)
          = snd (queryEvents ex_NewRRule ex_QueryCalendar [ex_work, ex_down, ex_home]
                   ex_day ex_wend False)"
    by (rule th [THEN conjunct2, THEN conjunct2, THEN conjunct1, symmetric])
  ultimately show ?thesis using h1 h2 h3 by (simp add: ex_queryEvents)
qed

text \<open>
  An RRULE that go-ical itself cannot parse is no failure: \<^verbatim>\<open>parseEvent\<close> drops the error
  of \<^verbatim>\<open>RecurrenceRule()\<close>, takes the event for one without a rule and returns its one
  occurrence; nothing is logged and the event is not skipped.
\<close>

theorem parseEvent_rule_failure_counterexample:
  "RecurrenceRule ex_unparsed = (None, Some (Error ''ical: error parsing rrule: wrong format''))
   \<and> parseEvent ex_NewRRule ex_unparsed ex_day ex_wend False = Inr [ex_unparsed_occurrence]
   \<and> queryEvents ex_NewRRule (\<lambda>path query. Inr [\<lparr>Events = [ex_unparsed]\<rparr>]) [ex_work]
       ex_day ex_wend False
       = ([], Inr [ex_unparsed_occurrence])"
proof -
  have p: "parseEvent ex_NewRRule ex_unparsed ex_day ex_wend False = Inr [ex_unparsed_occurrence]"
    by (simp add: parseEvent_def ex_unparsed_def ex_unparsed_occurrence_def ex_props_def prop_defs)
  have "SortFunc [ex_unparsed_occurrence] (\<lambda>a b. Compare (start a) (start b))
          = [ex_unparsed_occurrence]"
    by (simp add: SortFunc_short insertionSortCmpFunc_def insertionSort_outer.simps)
  then show ?thesis
    using p
    by (simp add: queryEvents_eq calendar_occurrences_def calendar_log_def object_occurrences_def
        object_log_def event_occurrences_def event_log_def ex_unparsed_def)
qed
section \<open>Properties that cannot be resolved, and the description\<close>

lemma parseEvent_clearErrors:
  "parseEvent NewRRule (clearErrors e) wstart wend incl = parseEvent NewRRule e wstart wend incl"
  by (simp add: parseEvent_def clearErrors_def)

lemma parseEvent_fields:
  "parseEvent NewRRule e wstart wend incl = Inr occs \<Longrightarrow> oc \<in> set occs \<Longrightarrow>
     summary oc = fst (Text e PropSummary) \<and> location oc = fst (Text e PropLocation)
     \<and> description oc = (if incl then fst (Text e PropDescription) else [])"
  by (auto simp: parseEvent_def Let_def split: option.splits sum.splits)

lemma parseEvent_error:
  "parseEvent NewRRule e wstart wend incl = Inl err \<Longrightarrow>
     \<exists>ropt. fst (RecurrenceRule e) = Some ropt
            \<and> NewRRule (ropt\<lparr>Dtstart := fst (DateTimeStart e)\<rparr>) = Inl err"
  by (auto simp: parseEvent_def Let_def split: option.splits sum.splits)

text \<open>
  C8. \<^verbatim>\<open>parseEvent\<close> never reads the error of an accessor: it goes on with the value
  returned beside it, which go-ical makes the zero time or the empty text when the
  property is missing or cannot be parsed. So, whatever the errors: an event without
  a rule gives exactly one occurrence, made of the returned values; an event whose
  rule \<^verbatim>\<open>rrule.NewRRule\<close> constructs gives one occurrence for every start of the rule in
  the window, lasting the difference of the two returned times and carrying the
  returned texts; the only error returned is the one of \<^verbatim>\<open>rrule.NewRRule\<close>, so that the
  result is the one for the event with every error cleared. When the values returned
  are the zero values, the one occurrence of an event without a rule runs from the
  zero time to the zero time with empty texts, and every occurrence of an event with
  a rule ends when it starts, with empty texts.
\<close>

theorem parseEvent_unresolved:
  "(fst (RecurrenceRule e) = None \<longrightarrow>
      parseEvent NewRRule e wstart wend incl
        = Inr [\<lparr>start = fst (DateTimeStart e), end' = fst (DateTimeEnd e),
                summary = fst (Text e PropSummary),
                description = (if incl then fst (Text e PropDescription) else []),
                location = fst (Text e PropLocation)\<rparr>])
   \<and> (\<forall>ropt rr. fst (RecurrenceRule e) = Some ropt
          \<and> NewRRule (ropt\<lparr>Dtstart := fst (DateTimeStart e)\<rparr>) = Inr rr \<longrightarrow>
        parseEvent NewRRule e wstart wend incl
          = Inr (map (\<lambda>t. \<lparr>start = t,
                            end' = Add t (Sub (fst (DateTimeEnd e)) (fst (DateTimeStart e))),
                            summary = fst (Text e PropSummary),
                            description = (if incl then fst (Text e PropDescription) else []),
                            location = fst (Text e PropLocation)\<rparr>)
                   (Between rr wstart wend True)))
   \<and> (\<forall>err. parseEvent NewRRule e wstart wend incl = Inl err \<longrightarrow>
        (\<exists>ropt. fst (RecurrenceRule e) = Some ropt
                \<and> NewRRule (ropt\<lparr>Dtstart := fst (DateTimeStart e)\<rparr>) = Inl err))
   \<and> parseEvent NewRRule e wstart wend incl = parseEvent NewRRule (clearErrors e) wstart wend incl
   \<and> (fst (DateTimeStart e) = zeroTime \<and> fst (DateTimeEnd e) = zeroTime
        \<and> (\<forall>name. fst (Text e name) = []) \<longrightarrow>
        (fst (RecurrenceRule e) = None \<longrightarrow>
           parseEvent NewRRule e wstart wend incl = Inr [zero_occurrence zeroTime])
        \<and> (\<forall>ropt rr. fst (RecurrenceRule e) = Some ropt
               \<and> NewRRule (ropt\<lparr>Dtstart := zeroTime\<rparr>) = Inr rr \<longrightarrow>
             parseEvent NewRRule e wstart wend incl
               = Inr (map zero_occurrence (Between rr wstart wend True))))"
proof (intro conjI allI impI)
  show "parseEvent NewRRule e wstart wend incl
          = parseEvent NewRRule (clearErrors e) wstart wend incl"
    by (simp add: parseEvent_clearErrors)
next
  fix err assume "parseEvent NewRRule e wstart wend incl = Inl err"
  then show "\<exists>ropt. fst (RecurrenceRule e) = Some ropt
                  \<and> NewRRule (ropt\<lparr>Dtstart := fst (DateTimeStart e)\<rparr>) = Inl err"
    by (rule parseEvent_error)
next
  assume "fst (RecurrenceRule e) = None"
  then show "parseEvent NewRRule e wstart wend incl
        = Inr [\<lparr>start = fst (DateTimeStart e), end' = fst (DateTimeEnd e),
                summary = fst (Text e PropSummary),
                description = (if incl then fst (Text e PropDescription) else []),
                location = fst (Text e PropLocation)\<rparr>]"
    by (simp add: parseEvent_def Let_def)
next
  fix ropt rr
  assume "fst (RecurrenceRule e) = Some ropt
          \<and> NewRRule (ropt\<lparr>Dtstart := fst (DateTimeStart e)\<rparr>) = Inr rr"
  then show "parseEvent NewRRule e wstart wend incl
          = Inr (map (\<lambda>t. \<lparr>start = t,
                            end' = Add t (Sub (fst (DateTimeEnd e)) (fst (DateTimeStart e))),
                            summary = fst (Text e PropSummary),
                            description = (if incl then fst (Text e PropDescription) else []),
                            location = fst (Text e PropLocation)\<rparr>)
                   (Between rr wstart wend True))"
    by (simp add: parseEvent_def Let_def)
next
  assume z: "fst (DateTimeStart e) = zeroTime \<and> fst (DateTimeEnd e) = zeroTime
             \<and> (\<forall>name. fst (Text e name) = [])"
    and "fst (RecurrenceRule e) = None"
  then show "parseEvent NewRRule e wstart wend incl = Inr [zero_occurrence zeroTime]"
    by (simp add: parseEvent_def Let_def zero_occurrence_def)
next
  fix ropt rr
  assume z: "fst (DateTimeStart e) = zeroTime \<and> fst (DateTimeEnd e) = zeroTime
             \<and> (\<forall>name. fst (Text e name) = [])"
    and r: "fst (RecurrenceRule e) = Some ropt \<and> NewRRule (ropt\<lparr>Dtstart := zeroTime\<rparr>) = Inr rr"
  have "Sub zeroTime zeroTime = 0"
    by (simp add: Sub_def minDuration_def maxDuration_def)
  then have "Add t (Sub zeroTime zeroTime) = t" for t
    by (simp add: Add_def)
  then show "parseEvent NewRRule e wstart wend incl
               = Inr (map zero_occurrence (Between rr wstart wend True))"
    using z r by (simp add: parseEvent_def Let_def zero_occurrence_def)
qed

text \<open>
  The event of which nothing can be resolved gives one occurrence from the zero time to
  the zero time with empty texts, and no error; with the weekly rule, anchored at the
  zero time, it gives the two occurrences of the week that starts at the zero time,
  each ending when it starts; and the error for the event with the refused rule is
  the one of \<^verbatim>\<open>rrule.NewRRule\<close>.
\<close>

theorem parseEvent_unresolved_witness:
  "DateTimeStart ex_unresolved = (zeroTime, Some (Error ''ical: malformed DTSTART''))
   \<and> DateTimeEnd ex_unresolved = (zeroTime, Some (Error ''ical: malformed DTEND''))
   \<and> Text ex_unresolved PropSummary = ([], Some (Error ''ical: unexpected value type''))
   \<and> fst (RecurrenceRule ex_unresolved) = None
   \<and> parseEvent ex_NewRRule ex_unresolved ex_day ex_wend True = Inr [zero_occurrence zeroTime]
   \<and> DateTimeStart ex_unresolved_weekly = (zeroTime, Some (Error ''ical: malformed DTSTART''))
   \<and> fst (RecurrenceRule ex_unresolved_weekly)
       = Some \<lparr>Dtstart = zeroTime, RuleText = ''FREQ=WEEKLY;COUNT=3''\<rparr>
   \<and> ex_NewRRule (\<lparr>Dtstart = zeroTime, RuleText = ''FREQ=WEEKLY;COUNT=3''\<rparr>\<lparr>Dtstart := zeroTime\<rparr>)
       = Inr [zeroTime, Add zeroTime (7 * 24 * Hour), Add zeroTime (14 * 24 * Hour)]
   \<and> parseEvent ex_NewRRule ex_unresolved_weekly zeroTime (Add zeroTime (7 * 24 * Hour)) True
       = Inr [zero_occurrence zeroTime, zero_occurrence (Add zeroTime (7 * 24 * Hour))]
   \<and> parseEvent ex_NewRRule ex_broken ex_day ex_wend True = Inl (Error ''wrong value'')
   \<and> (\<exists>ropt. fst (RecurrenceRule ex_broken) = Some ropt
             \<and> ex_NewRRule (ropt\<lparr>Dtstart := fst (DateTimeStart ex_broken)\<rparr>)
                 = Inl (Error ''wrong value''))"
proof -
  have z1: "fst (DateTimeStart ex_unresolved) = zeroTime \<and> fst (DateTimeEnd ex_unresolved) = zeroTime
            \<and> (\<forall>name. fst (Text ex_unresolved name) = [])"
    by (simp add: ex_unresolved_def)
  have r1: "fst (RecurrenceRule ex_unresolved) = None"
    by (simp add: ex_unresolved_def)
  have a: "parseEvent ex_NewRRule ex_unresolved ex_day ex_wend True = Inr [zero_occurrence zeroTime]"
    using parseEvent_unresolved [of ex_unresolved ex_NewRRule ex_day ex_wend True] z1 r1 by blast
  have z2: "fst (DateTimeStart ex_unresolved_weekly) = zeroTime
            \<and> fst (DateTimeEnd ex_unresolved_weekly) = zeroTime
            \<and> (\<forall>name. fst (Text ex_unresolved_weekly name) = [])"
    by (simp add: ex_unresolved_weekly_def)
  have n: "ex_NewRRule (\<lparr>Dtstart = zeroTime, RuleText = ''FREQ=WEEKLY;COUNT=3''\<rparr>\<lparr>Dtstart := zeroTime\<rparr>)
             = Inr [zeroTime, Add zeroTime (7 * 24 * Hour), Add zeroTime (14 * 24 * Hour)]"
    by (simp add: ex_NewRRule_def)
  have r2: "fst (RecurrenceRule ex_unresolved_weekly)
              = Some \<lparr>Dtstart = zeroTime, RuleText = ''FREQ=WEEKLY;COUNT=3''\<rparr>
            \<and> ex_NewRRule (\<lparr>Dtstart = zeroTime, RuleText = ''FREQ=WEEKLY;COUNT=3''\<rparr>
                             \<lparr>Dtstart := zeroTime\<rparr>)
                = Inr [zeroTime, Add zeroTime (7 * 24 * Hour), Add zeroTime (14 * 24 * Hour)]"
    using n by (simp add: ex_unresolved_weekly_def)
  have "parseEvent ex_NewRRule ex_unresolved_weekly zeroTime (Add zeroTime (7 * 24 * Hour)) True
          = Inr (map zero_occurrence
                   (Between [zeroTime, Add zeroTime (7 * 24 * Hour), Add zeroTime (14 * 24 * Hour)]
                      zeroTime (Add zeroTime (7 * 24 * Hour)) True))"
    using parseEvent_unresolved
      [of ex_unresolved_weekly ex_NewRRule zeroTime "Add zeroTime (7 * 24 * Hour)" True] z2 r2
    by blast
  moreover have "Between [zeroTime, Add zeroTime (7 * 24 * Hour), Add zeroTime (14 * 24 * Hour)]
                   zeroTime (Add zeroTime (7 * 24 * Hour)) True
                   = [zeroTime, Add zeroTime (7 * 24 * Hour)]"
    by (simp add: time_defs)
  ultimately have b: "parseEvent ex_NewRRule ex_unresolved_weekly zeroTime
                        (Add zeroTime (7 * 24 * Hour)) True
       = Inr [zero_occurrence zeroTime, zero_occurrence (Add zeroTime (7 * 24 * Hour))]"
    by simp
  have c: "parseEvent ex_NewRRule ex_broken ex_day ex_wend True = Inl (Error ''wrong value'')"
    by (rule ex_broken_parse)
  have d: "\<exists>ropt. fst (RecurrenceRule ex_broken) = Some ropt
             \<and> ex_NewRRule (ropt\<lparr>Dtstart := fst (DateTimeStart ex_broken)\<rparr>)
                 = Inl (Error ''wrong value'')"
    using parseEvent_unresolved [of ex_broken ex_NewRRule ex_day ex_wend True] c by blast
  show ?thesis
    using a b c d n by (simp add: ex_unresolved_def ex_unresolved_weekly_def)
qed

lemma parseEvent_hideDescription:
  "parseEvent NewRRule (hideDescription e) wstart wend False
     = parseEvent NewRRule e wstart wend False"
  by (simp add: parseEvent_def hideDescription_def prop_defs)

lemma event_hideDescription:
  "event_occurrences NewRRule wstart wend False (hideDescription e)
     = event_occurrences NewRRule wstart wend False e"
  "event_log NewRRule wstart wend False (hideDescription e)
     = event_log NewRRule wstart wend False e"
  by (simp_all add: event_occurrences_def event_log_def parseEvent_hideDescription)

lemma object_hideDescriptions:
  "object_occurrences NewRRule wstart wend False (hideDescriptions ob)
     = object_occurrences NewRRule wstart wend False ob"
  "object_log NewRRule wstart wend False (hideDescriptions ob)
     = object_log NewRRule wstart wend False ob"
  by (simp_all add: object_occurrences_def object_log_def hideDescriptions_def comp_def
      event_hideDescription)

lemma concat_map_hideDescriptions:
  assumes "map hideDescriptions objs1 = map hideDescriptions objs2"
  shows "concat (map (object_occurrences NewRRule wstart wend False) objs1)
           = concat (map (object_occurrences NewRRule wstart wend False) objs2)"
    and "concat (map (object_log NewRRule wstart wend False) objs1)
           = concat (map (object_log NewRRule wstart wend False) objs2)"
proof -
  have occ: "map (object_occurrences NewRRule wstart wend False) objs
          = map (object_occurrences NewRRule wstart wend False) (map hideDescriptions objs)" for objs
    by (simp add: comp_def object_hideDescriptions)
  show "concat (map (object_occurrences NewRRule wstart wend False) objs1)
           = concat (map (object_occurrences NewRRule wstart wend False) objs2)"
    by (subst occ [of objs1], subst occ [of objs2]) (simp only: assms)
  have lg: "map (object_log NewRRule wstart wend False) objs
          = map (object_log NewRRule wstart wend False) (map hideDescriptions objs)" for objs
    by (simp add: comp_def object_hideDescriptions)
  show "concat (map (object_log NewRRule wstart wend False) objs1)
           = concat (map (object_log NewRRule wstart wend False) objs2)"
    by (subst lg [of objs1], subst lg [of objs2]) (simp only: assms)
qed

lemma calendar_hideDescriptions:
  assumes "map_sum id (map hideDescriptions) (Q1 (Path c) (queryEvents_query wstart wend False))
             = map_sum id (map hideDescriptions) (Q2 (Path c) (queryEvents_query wstart wend False))"
  shows "calendar_occurrences NewRRule Q1 wstart wend False c
           = calendar_occurrences NewRRule Q2 wstart wend False c
         \<and> calendar_log NewRRule Q1 wstart wend False c
           = calendar_log NewRRule Q2 wstart wend False c"
proof (cases "Q1 (Path c) (queryEvents_query wstart wend False)")
  case (Inl err)
  with assms have "Q2 (Path c) (queryEvents_query wstart wend False) = Inl err"
    by (cases "Q2 (Path c) (queryEvents_query wstart wend False)") simp_all
  with Inl show ?thesis by (simp add: calendar_occurrences_def calendar_log_def)
next
  case (Inr objs1)
  with assms obtain objs2 where
    q2: "Q2 (Path c) (queryEvents_query wstart wend False) = Inr objs2"
    and eq: "map hideDescriptions objs1 = map hideDescriptions objs2"
    by (cases "Q2 (Path c) (queryEvents_query wstart wend False)") simp_all
  from concat_map_hideDescriptions [OF eq] Inr q2 show ?thesis
    by (simp add: calendar_occurrences_def calendar_log_def)
qed

lemma printEvent_Buffer:
  "printEvent Buffer_Write w e verbose =
     (w @ printEvent_line e @ (if verbose \<and> description e \<noteq> [] then description e @ ''\<newline>'' else []),
      None)"
  by (simp add: printEvent_def Buffer_Write_def)

text \<open>
  C9. With \<^verbatim>\<open>includeDescription\<close> false, two servers whose answers agree once the
  description texts are taken out give the same log and the same events, so the same
  lines whatever is printed from them. Every occurrence carries the summary and the
  location of its event as returned, and the description only when
  \<^verbatim>\<open>includeDescription\<close> is true: the occurrences \<^verbatim>\<open>parseEvent\<close> returns then are those it
  returns without, each with the description of the event put in. So an event without
  a rule that has a description gives one occurrence with that description, which is
  printed, when \<open>verbose\<close> is true, as its line followed by the description and a
  newline; an event with a rule gives as many occurrences as the rule has starts in
  the window, each with the description. An occurrence without a description is
  printed as its line alone.
\<close>

theorem description_only_on_request:
  assumes "\<forall>path query. map_sum id (map hideDescriptions) (Q1 path query)
                          = map_sum id (map hideDescriptions) (Q2 path query)"
  shows "queryEvents NewRRule Q1 cs wstart wend False = queryEvents NewRRule Q2 cs wstart wend False
         \<and> (\<forall>occs. parseEvent NewRRule e wstart wend incl = Inr occs \<longrightarrow>
               list_all (\<lambda>oc. summary oc = fst (Text e PropSummary)
                              \<and> location oc = fst (Text e PropLocation)
                              \<and> description oc
                                  = (if incl then fst (Text e PropDescription) else [])) occs)
         \<and> (description oc \<noteq> [] \<longrightarrow>
               printEvent Buffer_Write w oc True
                 = (w @ printEvent_line oc @ description oc @ ''\<newline>'', None))
         \<and> (description oc = [] \<longrightarrow>
               printEvent Buffer_Write w oc verbose = (w @ printEvent_line oc, None))
         \<and> parseEvent NewRRule e wstart wend True
             = map_sum id (map (\<lambda>oc. oc\<lparr>description := fst (Text e PropDescription)\<rparr>))
                 (parseEvent NewRRule e wstart wend False)
         \<and> (fst (RecurrenceRule e) = None \<and> fst (Text e PropDescription) \<noteq> [] \<longrightarrow>
               (\<exists>oc'. parseEvent NewRRule e wstart wend True = Inr [oc']
                      \<and> description oc' = fst (Text e PropDescription)
                      \<and> printEvent Buffer_Write w oc' True
                          = (w @ printEvent_line oc' @ fst (Text e PropDescription) @ ''\<newline>'',
                             None)))
         \<and> (\<forall>ropt rr. fst (RecurrenceRule e) = Some ropt
                \<and> NewRRule (ropt\<lparr>Dtstart := fst (DateTimeStart e)\<rparr>) = Inr rr \<longrightarrow>
               (\<exists>occs. parseEvent NewRRule e wstart wend True = Inr occs
                       \<and> map start occs = Between rr wstart wend True
                       \<and> list_all (\<lambda>oc. description oc = fst (Text e PropDescription)) occs))"
proof (intro conjI allI impI)
  have each: "calendar_occurrences NewRRule Q1 wstart wend False c
                = calendar_occurrences NewRRule Q2 wstart wend False c
              \<and> calendar_log NewRRule Q1 wstart wend False c
                = calendar_log NewRRule Q2 wstart wend False c" for c
    by (rule calendar_hideDescriptions) (rule assms [rule_format])
  have "calendar_occurrences NewRRule Q1 wstart wend False
          = calendar_occurrences NewRRule Q2 wstart wend False"
    and "calendar_log NewRRule Q1 wstart wend False = calendar_log NewRRule Q2 wstart wend False"
    using each by (simp_all add: fun_eq_iff)
  then show "queryEvents NewRRule Q1 cs wstart wend False
               = queryEvents NewRRule Q2 cs wstart wend False"
    by (simp only: queryEvents_eq)
next
  fix occs
  assume "parseEvent NewRRule e wstart wend incl = Inr occs"
  from parseEvent_fields [OF this]
  show "list_all (\<lambda>oc. summary oc = fst (Text e PropSummary)
                      \<and> location oc = fst (Text e PropLocation)
                      \<and> description oc
                          = (if incl then fst (Text e PropDescription) else [])) occs"
    by (simp add: list_all_iff)
next
  assume "description oc \<noteq> []"
  then show "printEvent Buffer_Write w oc True
               = (w @ printEvent_line oc @ description oc @ ''\<newline>'', None)"
    by (simp add: printEvent_Buffer)
next
  assume "description oc = []"
  then show "printEvent Buffer_Write w oc verbose = (w @ printEvent_line oc, None)"
    by (simp add: printEvent_Buffer)
next
  show "parseEvent NewRRule e wstart wend True
          = map_sum id (map (\<lambda>oc. oc\<lparr>description := fst (Text e PropDescription)\<rparr>))
              (parseEvent NewRRule e wstart wend False)"
    by (simp add: parseEvent_def Let_def comp_def split: option.splits sum.splits)
next
  assume a: "fst (RecurrenceRule e) = None \<and> fst (Text e PropDescription) \<noteq> []"
  let ?oc = "\<lparr>start = fst (DateTimeStart e), end' = fst (DateTimeEnd e),
              summary = fst (Text e PropSummary), description = fst (Text e PropDescription),
              location = fst (Text e PropLocation)\<rparr>"
  have "parseEvent NewRRule e wstart wend True = Inr [?oc]"
    using a by (simp add: parseEvent_def Let_def)
  moreover have "printEvent Buffer_Write w ?oc True
                   = (w @ printEvent_line ?oc @ fst (Text e PropDescription) @ ''\<newline>'', None)"
    using a by (simp add: printEvent_Buffer)
  ultimately show "\<exists>oc'. parseEvent NewRRule e wstart wend True = Inr [oc']
                      \<and> description oc' = fst (Text e PropDescription)
                      \<and> printEvent Buffer_Write w oc' True
                          = (w @ printEvent_line oc' @ fst (Text e PropDescription) @ ''\<newline>'',
                             None)"
    by (intro exI [of _ ?oc]) simp
next
  fix ropt rr
  assume "fst (RecurrenceRule e) = Some ropt
          \<and> NewRRule (ropt\<lparr>Dtstart := fst (DateTimeStart e)\<rparr>) = Inr rr"
  then show "\<exists>occs. parseEvent NewRRule e wstart wend True = Inr occs
                   \<and> map start occs = Between rr wstart wend True
                   \<and> list_all (\<lambda>oc. description oc = fst (Text e PropDescription)) occs"
    by (simp add: parseEvent_def Let_def comp_def list_all_iff)
qed


lemma hideDescription_idem: "hideDescription (hideDescription e) = hideDescription e"
  by (simp add: hideDescription_def cong: if_cong)

lemma hideDescriptions_idem: "hideDescriptions (hideDescriptions ob) = hideDescriptions ob"
  by (simp add: hideDescriptions_def comp_def hideDescription_idem)

text \<open>
  The example server and the one without descriptions: the stand-up differs between
  them (``Daily sync'' against nothing), the answers agree once descriptions are taken
  out, and so do the results. Asked for with its description, the stand-up gives its
  three occurrences with ``Daily sync'', and the review its one occurrence, which is
  printed on two lines.
\<close>

theorem description_only_on_request_witness:
  "(\<forall>path query. map_sum id (map hideDescriptions) (ex_QueryCalendar path query)
                    = map_sum id (map hideDescriptions) (ex_QueryCalendar_plain path query))
   \<and> fst (Text ex_standup PropDescription) = ''Daily sync''
   \<and> fst (Text (hideDescription ex_standup) PropDescription) = []
   \<and> queryEvents ex_NewRRule ex_QueryCalendar_plain [ex_work, ex_down, ex_home] ex_day ex_wend False
     = ([''parseEvent: wrong value'', ''QueryCalendar(down): 503 Service Unavailable''],
        Inr [ex_holiday_occurrence, ex_occurrence 0, ex_occurrence 1, ex_occurrence 2])
   \<and> printEvent Buffer_Write [] ((ex_occurrence 0)\<lparr>description := ''Daily sync''\<rparr>) True
     = (printEvent_line (ex_occurrence 0) @ ''Daily sync\<newline>'', None)
   \<and> parseEvent ex_NewRRule ex_standup ex_day ex_wend True
     = Inr [(ex_occurrence 0)\<lparr>description := ''Daily sync''\<rparr>,
            (ex_occurrence 1)\<lparr>description := ''Daily sync''\<rparr>,
            (ex_occurrence 2)\<lparr>description := ''Daily sync''\<rparr>]
   \<and> fst (RecurrenceRule ex_review) = None
   \<and> fst (Text ex_review PropDescription) = ''Bring the slides''
   \<and> parseEvent ex_NewRRule ex_review ex_day ex_wend True = Inr [ex_review_occurrence]
   \<and> printEvent Buffer_Write [] ex_review_occurrence True
     = (printEvent_line ex_review_occurrence @ ''Bring the slides\<newline>'', None)"
proof -
  have h: "\<forall>path query. map_sum id (map hideDescriptions) (ex_QueryCalendar path query)
                    = map_sum id (map hideDescriptions) (ex_QueryCalendar_plain path query)"
    by (simp add: ex_QueryCalendar_plain_def sum.map_comp comp_def hideDescriptions_idem id_def)
  note th = description_only_on_request
    [where ?Q1.0 = ex_QueryCalendar and ?Q2.0 = ex_QueryCalendar_plain, OF h]
  have "queryEvents ex_NewRRule ex_QueryCalendar [ex_work, ex_down, ex_home] ex_day ex_wend False
          = queryEvents ex_NewRRule ex_QueryCalendar_plain [ex_work, ex_down, ex_home] ex_day ex_wend False"
    by (rule th [THEN conjunct1])
  then have q: "queryEvents ex_NewRRule ex_QueryCalendar_plain [ex_work, ex_down, ex_home]
                  ex_day ex_wend False
     = ([''parseEvent: wrong value'', ''QueryCalendar(down): 503 Service Unavailable''],
        Inr [ex_holiday_occurrence, ex_occurrence 0, ex_occurrence 1, ex_occurrence 2])"
    by (simp add: ex_queryEvents)
  have l: "printEvent_line ((ex_occurrence 0)\<lparr>description := ''Daily sync''\<rparr>)
             = printEvent_line (ex_occurrence 0)"
    by (simp add: printEvent_line_def Let_def cong: if_cong)
  have "description ((ex_occurrence 0)\<lparr>description := ''Daily sync''\<rparr>) \<noteq> []"
    by simp
  from th [THEN conjunct2, THEN conjunct2, THEN conjunct1, rule_format, OF this]
  have p: "printEvent Buffer_Write [] ((ex_occurrence 0)\<lparr>description := ''Daily sync''\<rparr>) True
          = (printEvent_line (ex_occurrence 0) @ ''Daily sync\<newline>'', None)"
    by (simp add: l)
  have d: "fst (Text ex_standup PropDescription) = ''Daily sync''"
    by (simp add: ex_standup_def ex_props_def prop_defs)
  have "parseEvent ex_NewRRule ex_standup ex_day ex_wend True
          = map_sum id (map (\<lambda>oc. oc\<lparr>description := fst (Text ex_standup PropDescription)\<rparr>))
              (parseEvent ex_NewRRule ex_standup ex_day ex_wend False)"
    by (rule th [THEN conjunct2, THEN conjunct2, THEN conjunct2, THEN conjunct2, THEN conjunct1])
  then have s: "parseEvent ex_NewRRule ex_standup ex_day ex_wend True
     = Inr [(ex_occurrence 0)\<lparr>description := ''Daily sync''\<rparr>,
            (ex_occurrence 1)\<lparr>description := ''Daily sync''\<rparr>,
            (ex_occurrence 2)\<lparr>description := ''Daily sync''\<rparr>]"
    by (simp add: ex_standup_parse d)
  have r: "fst (RecurrenceRule ex_review) = None \<and> fst (Text ex_review PropDescription) \<noteq> []"
    by (simp add: ex_review_def ex_props_def prop_defs)
  have rp: "parseEvent ex_NewRRule ex_review ex_day ex_wend True = Inr [ex_review_occurrence]"
    by (simp add: parseEvent_def ex_review_def ex_review_occurrence_def ex_props_def prop_defs)
  have rd: "fst (Text ex_review PropDescription) = ''Bring the slides''"
    by (simp add: ex_review_def ex_props_def prop_defs)
  from th [where e = ex_review and NewRRule = ex_NewRRule and wstart = ex_day and wend = ex_wend
             and w = "[]",
           THEN conjunct2, THEN conjunct2, THEN conjunct2, THEN conjunct2, THEN conjunct2,
           THEN conjunct1, rule_format, OF r]
  have rq: "printEvent Buffer_Write [] ex_review_occurrence True
     = (printEvent_line ex_review_occurrence @ ''Bring the slides\<newline>'', None)"
    by (simp add: rp rd)
  have d2: "fst (Text (hideDescription ex_standup) PropDescription) = []"
    by (simp add: hideDescription_def)
  have r1: "fst (RecurrenceRule ex_review) = None"
    using r by simp
  show ?thesis
    by (intro conjI; fact)
qed
section \<open>The printed line\<close>

lemma printEvent_d_parts:
  assumes "0 < d" and "d < 24 * Hour"
  shows "0 \<le> d div Hour" and "d div Hour < 24"
    and "0 \<le> (d - d div Hour * Hour) div Minute" and "(d - d div Hour * Hour) div Minute < 60"
proof -
  have H: "Hour = 60 * Minute" "Minute = 60000000000"
    by (simp_all add: Hour_def Minute_def Second_def)
  show "0 \<le> d div Hour" "d div Hour < 24"
    using assms by (simp_all add: H div_less_iff_less_mult pos_imp_zdiv_nonneg_iff)
  have m: "d - d div Hour * Hour = d mod Hour"
    by (simp add: minus_div_mult_eq_mod)
  have "0 \<le> d mod Hour" "d mod Hour < 60 * Minute"
    by (simp_all add: H)
  then show "0 \<le> (d - d div Hour * Hour) div Minute" "(d - d div Hour * Hour) div Minute < 60"
    unfolding m by (simp_all add: H(2) div_less_iff_less_mult pos_imp_zdiv_nonneg_iff)
qed

text \<open>
  C6. \<^verbatim>\<open>printEvent\<close> takes the all-day form exactly when the start shows hour 0 and
  minute 0 and the end is 24 hours after the start. The line is then the weekday, the
  date as year, month and day, fourteen spaces, the summary and, when the location is
  not empty, a comma, a space and the location: no time of day and no duration. In
  every other case the line is the timed one, with the hour and the minute and the
  duration column. The line is what is written first; the description line of C9
  follows it when \<open>verbose\<close> asks for it.
\<close>

theorem printEvent_all_day:
  "printEvent_line e =
     (if Time_Hour (start e) = 0 \<and> Time_Minute (start e) = 0
           \<and> Sub (end' e) (start e) = 24 * Hour
      then shortDayNames ! nat (Time_Weekday (start e)) @ '' ''
             @ appendInt (fst (Time_Date (start e))) 4 @ ''-''
             @ appendInt (fst (snd (Time_Date (start e)))) 2 @ ''-''
             @ appendInt (snd (snd (Time_Date (start e)))) 2
             @ ''              '' @ summary e
             @ (if location e = [] then [] else '', '' @ location e) @ ''\<newline>''
      else shortDayNames ! nat (Time_Weekday (start e)) @ '' ''
             @ appendInt (fst (Time_Date (start e))) 4 @ ''-''
             @ appendInt (fst (snd (Time_Date (start e)))) 2 @ ''-''
             @ appendInt (snd (snd (Time_Date (start e)))) 2 @ '' ''
             @ appendInt (Time_Hour (start e)) 2 @ '':'' @ appendInt (Time_Minute (start e)) 2
             @ '' '' @ printEvent_d (Sub (end' e) (start e)) @ '' '' @ summary e
             @ (if location e = [] then [] else '', '' @ location e) @ ''\<newline>'')
   \<and> printEvent Buffer_Write w e verbose
       = (w @ printEvent_line e
            @ (if verbose \<and> description e \<noteq> [] then description e @ ''\<newline>'' else []),
          None)"
  by (auto simp: printEvent_line_def Let_def printEvent_Buffer Format_date_time Format_date)

text \<open>The all-day example of the specification, with a location.\<close>

theorem printEvent_all_day_witness:
  "Time_Hour (start ex_holiday_occurrence) = 0 \<and> Time_Minute (start ex_holiday_occurrence) = 0
   \<and> Sub (end' ex_holiday_occurrence) (start ex_holiday_occurrence) = 24 * Hour
   \<and> printEvent Buffer_Write [] ex_holiday_occurrence True
       = (''Mon 2024-03-04              Holiday, Paris\<newline>'', None)"
proof -
  have "Sub (end' ex_holiday_occurrence) (start ex_holiday_occurrence) = 24 * Hour"
    by (simp add: ex_holiday_occurrence_def time_defs)
  moreover have "description ex_holiday_occurrence = []"
    by (simp add: ex_holiday_occurrence_def)
  ultimately show ?thesis
    using printEvent_all_day [of ex_holiday_occurrence "[]" True]
    by (simp add: ex_holiday_line) (simp add: ex_holiday_occurrence_def ex_day_clock)
qed

text \<open>
  C7, as the code has it. The duration column of a timed line is, for a duration above
  zero and below 24 hours, the hours in two columns (a space before a single digit),
  the letter h and then either the minutes in two digits and the letter m, or three
  spaces when the minutes are zero; and \<^verbatim>\<open>Duration.String\<close> for every other duration. A
  duration of 90 minutes gives \<^verbatim>\<open>" 1h30m"\<close>, with the space: \<^verbatim>\<open>%2v\<close> pads the hours, which
  the claim leaves out.
\<close>

theorem printEvent_d_label:
  "printEvent_d d =
     (if 0 < d \<and> d < 24 * Hour
      then (if d div Hour < 10 then [CHR '' '', ''0123456789'' ! nat (d div Hour)]
            else [''0123456789'' ! nat (d div Hour div 10),
                  ''0123456789'' ! nat (d div Hour mod 10)])
           @ ''h''
           @ (if d mod Hour div Minute = 0 then ''   ''
              else [''0123456789'' ! nat (d mod Hour div Minute div 10),
                    ''0123456789'' ! nat (d mod Hour div Minute mod 10)] @ ''m'')
      else Duration_String d)
   \<and> printEvent_d (90 * Minute) = '' 1h30m''
   \<and> (\<not> (Time_Hour (start e) = 0 \<and> Time_Minute (start e) = 0
            \<and> Sub (end' e) (start e) = 24 * Hour) \<longrightarrow>
         printEvent_line e
           = Format (start e) ''Mon 2006-01-02 15:04'' @ '' ''
               @ printEvent_d (Sub (end' e) (start e)) @ '' '' @ summary e
               @ (if location e = [] then [] else '', '' @ location e) @ ''\<newline>'')"
proof (intro conjI)
  show "printEvent_d d =
     (if 0 < d \<and> d < 24 * Hour
      then (if d div Hour < 10 then [CHR '' '', ''0123456789'' ! nat (d div Hour)]
            else [''0123456789'' ! nat (d div Hour div 10),
                  ''0123456789'' ! nat (d div Hour mod 10)])
           @ ''h''
           @ (if d mod Hour div Minute = 0 then ''   ''
              else [''0123456789'' ! nat (d mod Hour div Minute div 10),
                    ''0123456789'' ! nat (d mod Hour div Minute mod 10)] @ ''m'')
      else Duration_String d)"
  proof (cases "0 < d \<and> d < 24 * Hour")
    case False
    then show ?thesis by (auto simp: printEvent_d_def)
  next
    case True
    note p = printEvent_d_parts [of d]
    have m: "d - d div Hour * Hour = d mod Hour"
      by (simp add: minus_div_mult_eq_mod)
    have h: "Sprintf_2v (d div Hour)
               = (if d div Hour < 10 then [CHR '' '', ''0123456789'' ! nat (d div Hour)]
                  else [''0123456789'' ! nat (d div Hour div 10),
                        ''0123456789'' ! nat (d div Hour mod 10)])"
      using True p(1,2) by (simp add: Sprintf_2v_lt10 Sprintf_2v_two)
    have mm: "Sprintf_02v (d mod Hour div Minute)
                = [''0123456789'' ! nat (d mod Hour div Minute div 10),
                   ''0123456789'' ! nat (d mod Hour div Minute mod 10)]"
      using True p(3,4) unfolding m by (simp add: Sprintf_02v_two)
    show ?thesis
      using True by (simp add: printEvent_d_def Let_def m h mm)
  qed
  show "printEvent_d (90 * Minute) = '' 1h30m''"
    by (rule printEvent_d_90)
  show "\<not> (Time_Hour (start e) = 0 \<and> Time_Minute (start e) = 0
            \<and> Sub (end' e) (start e) = 24 * Hour) \<longrightarrow>
         printEvent_line e
           = Format (start e) ''Mon 2006-01-02 15:04'' @ '' ''
               @ printEvent_d (Sub (end' e) (start e)) @ '' '' @ summary e
               @ (if location e = [] then [] else '', '' @ location e) @ ''\<newline>''"
    by (auto simp: printEvent_line_def)
qed

text \<open>The 90 minutes of the claim: the column is not \<^verbatim>\<open>"1h30m"\<close>.\<close>

theorem printEvent_d_label_counterexample:
  "printEvent_d (90 * Minute) \<noteq> ''1h30m''"
  by (simp add: printEvent_d_90)

text \<open>
  The stand-up of the specification (30 minutes from 09:00) and a meeting of two hours:
  the columns \<^verbatim>\<open>" 0h30m"\<close> and \<^verbatim>\<open>" 2h   "\<close>; a duration of zero and one of 24 hours fall
  to \<^verbatim>\<open>Duration.String\<close>.
\<close>

theorem printEvent_d_label_witness:
  "\<not> (Time_Hour (start (ex_occurrence 0)) = 0 \<and> Time_Minute (start (ex_occurrence 0)) = 0
       \<and> Sub (end' (ex_occurrence 0)) (start (ex_occurrence 0)) = 24 * Hour)
   \<and> printEvent_line (ex_occurrence 0) = ''Mon 2024-03-04 09:00  0h30m Standup\<newline>''
   \<and> printEvent_d (2 * Hour) = '' 2h   ''
   \<and> printEvent_d 0 = ''0s''
   \<and> printEvent_d (24 * Hour) = ''24h0m0s''"
proof -
  have s: "start (ex_occurrence 0) = Add ex_day (9 * Hour)"
    by (simp add: ex_occurrence_def)
  have d: "Sub (end' (ex_occurrence 0)) (start (ex_occurrence 0)) = 30 * Minute"
    by (simp add: ex_occurrence_def time_defs)
  have n: "\<not> (Time_Hour (start (ex_occurrence 0)) = 0 \<and> Time_Minute (start (ex_occurrence 0)) = 0
       \<and> Sub (end' (ex_occurrence 0)) (start (ex_occurrence 0)) = 24 * Hour)"
    by (simp add: d Hour_def Minute_def Second_def)
  have l30: "printEvent_d (30 * Minute) = '' 0h30m''"
    by (subst printEvent_d_label [THEN conjunct1]) (simp add: Hour_def Minute_def Second_def)
  have l2: "printEvent_d (2 * Hour) = '' 2h   ''"
    by (subst printEvent_d_label [THEN conjunct1]) (simp add: Hour_def Minute_def Second_def)
  have l0: "printEvent_d 0 = ''0s''"
    by (subst printEvent_d_label [THEN conjunct1]) (simp add: Duration_String_def)
  have l24: "printEvent_d (24 * Hour) = ''24h0m0s''"
    by (subst printEvent_d_label [THEN conjunct1])
       (simp add: Duration_String_def fmtFrac_def eval_nat_numeral digits_lt10 digits_ge10
          Hour_def Minute_def Second_def)
  have "printEvent_line (ex_occurrence 0)
          = Format (start (ex_occurrence 0)) ''Mon 2006-01-02 15:04'' @ '' ''
              @ printEvent_d (Sub (end' (ex_occurrence 0)) (start (ex_occurrence 0))) @ '' ''
              @ summary (ex_occurrence 0)
              @ (if location (ex_occurrence 0) = [] then [] else '', '' @ location (ex_occurrence 0))
              @ ''\<newline>''"
    by (rule printEvent_d_label [THEN conjunct2, THEN conjunct2, rule_format, OF n])
  then have "printEvent_line (ex_occurrence 0) = ''Mon 2024-03-04 09:00  0h30m Standup\<newline>''"
    unfolding d l30 s ex_standup_Format using d l30 by (simp add: ex_occurrence_def)
  with n l2 l0 l24 show ?thesis by simp
qed

section \<open>The length of the window\<close>

lemma mul64_exact: "- (2 ^ 63) \<le> x * y \<Longrightarrow> x * y < 2 ^ 63 \<Longrightarrow> mul64 x y = x * y"
proof -
  assume a: "- (2 ^ 63) \<le> x * y" "x * y < 2 ^ 63"
  have "(x * y + 2 ^ 63) mod 2 ^ 64 = x * y + 2 ^ 63"
    using a by (intro mod_pos_pos_trivial) simp_all
  then show ?thesis by (simp add: mul64_def)
qed

text \<open>
  C10. \<^verbatim>\<open>day\<close>, \<^verbatim>\<open>week\<close>, \<^verbatim>\<open>month\<close> and \<^verbatim>\<open>year\<close> stand for 1, 7, 31 and 356 days of 24 hours.
  Any other value goes through \<^verbatim>\<open>strconv.Atoi\<close>: when that fails the program ends with
  the error, and otherwise the count is multiplied by 24 hours in int64, which is that
  many days for every count up to 106751 days either way.
\<close>

theorem main_duration_cases:
  "main_duration ''day'' = Inr (1 * (24 * Hour))
   \<and> main_duration ''week'' = Inr (7 * (24 * Hour))
   \<and> main_duration ''month'' = Inr (31 * (24 * Hour))
   \<and> main_duration ''year'' = Inr (356 * (24 * Hour))
   \<and> Hour = 3600 * 1000000000
   \<and> (s \<noteq> ''day'' \<and> s \<noteq> ''week'' \<and> s \<noteq> ''month'' \<and> s \<noteq> ''year'' \<longrightarrow>
        (case Atoi s of
           Inl err \<Rightarrow> \<exists>msg. main_duration s = Inl (Error msg)
         | Inr i \<Rightarrow>
             main_duration s = Inr (mul64 (mul64 i 24) Hour)
             \<and> (- 106751 \<le> i \<and> i \<le> 106751 \<longrightarrow> main_duration s = Inr (i * (24 * Hour)))))"
proof (intro conjI impI)
  assume s: "s \<noteq> ''day'' \<and> s \<noteq> ''week'' \<and> s \<noteq> ''month'' \<and> s \<noteq> ''year''"
  show "case Atoi s of
           Inl err \<Rightarrow> \<exists>msg. main_duration s = Inl (Error msg)
         | Inr i \<Rightarrow>
             main_duration s = Inr (mul64 (mul64 i 24) Hour)
             \<and> (- 106751 \<le> i \<and> i \<le> 106751 \<longrightarrow> main_duration s = Inr (i * (24 * Hour)))"
  proof (cases "Atoi s")
    case (Inl err)
    with s show ?thesis by (simp add: main_duration_def)
  next
    case (Inr i)
    have "mul64 (mul64 i 24) Hour = i * (24 * Hour)" if "- 106751 \<le> i" "i \<le> 106751"
    proof -
      have "mul64 i 24 = i * 24"
        using that by (intro mul64_exact) simp_all
      moreover have "mul64 (i * 24) Hour = i * 24 * Hour"
        using that by (intro mul64_exact) (simp_all add: Hour_def Minute_def Second_def)
      ultimately show ?thesis by simp
    qed
    with s Inr show ?thesis by (simp add: main_duration_def)
  qed
qed (simp_all add: main_duration_def Hour_def Minute_def Second_def)

lemma Atoi_3: "Atoi ''3'' = Inr 3"
  by (simp add: Atoi_def)

lemma Atoi_soon:
  "Atoi ''soon'' = Inl (Error (''strconv.Atoi: parsing '' @ [CHR 0x22] @ ''soon'' @ [CHR 0x22]
                                @ '': invalid syntax''))"
  by (simp add: Atoi_def NumError_def Quote_def Quote_char_def)

text \<open>\<^verbatim>\<open>ical -duration 3\<close> of the README, and a value that is not a number.\<close>

theorem main_duration_cases_witness:
  "main_duration ''3'' = Inr (3 * (24 * Hour))
   \<and> Atoi ''soon'' = Inl (Error (''strconv.Atoi: parsing '' @ [CHR 0x22] @ ''soon'' @ [CHR 0x22]
                                  @ '': invalid syntax''))
   \<and> main_duration ''soon''
       = Inl (Error (''Couldn't parse interval soon: strconv.Atoi: parsing '' @ [CHR 0x22]
                       @ ''soon'' @ [CHR 0x22] @ '': invalid syntax''))"
proof -
  have "main_duration ''3'' = Inr (3 * (24 * Hour))"
    using main_duration_cases [of "''3''"] by (auto simp: Atoi_3)
  moreover have "main_duration ''soon''
       = Inl (Error (''Couldn't parse interval soon: strconv.Atoi: parsing '' @ [CHR 0x22]
                       @ ''soon'' @ [CHR 0x22] @ '': invalid syntax''))"
    by (simp add: main_duration_def Atoi_soon error_text_def)
  ultimately show ?thesis by (simp add: Atoi_soon)
qed

section \<open>The sort is a sort\<close>

text \<open>
  The comparison function agrees with an order of keys; for \<^verbatim>\<open>queryEvents\<close> the key of an
  event is the instant it starts at.
\<close>

definition cmp_by :: "('a \<Rightarrow> 'k::linorder) \<Rightarrow> ('a \<Rightarrow> 'a \<Rightarrow> int) \<Rightarrow> bool" where
  "cmp_by key cmp = (\<forall>x y. (cmp x y < 0) = (key x < key y))"

text \<open>
  \<open>segment xs a b\<close> is \<^verbatim>\<open>xs[a:b]\<close>. \<open>range_perm xs ys a b\<close>: the list \<open>ys\<close> is \<open>xs\<close> with the
  elements of that range rearranged. \<open>sorted_in key xs a b\<close>: the keys do not descend
  along that range.
\<close>

definition segment :: "'a list \<Rightarrow> nat \<Rightarrow> nat \<Rightarrow> 'a list" where
  "segment xs a b = take (b - a) (drop a xs)"

definition range_perm :: "'a list \<Rightarrow> 'a list \<Rightarrow> nat \<Rightarrow> nat \<Rightarrow> bool" where
  "range_perm xs ys a b =
     (length ys = length xs \<and> take a ys = take a xs \<and> drop b ys = drop b xs
      \<and> mset (segment ys a b) = mset (segment xs a b))"

definition sorted_in :: "('a \<Rightarrow> 'k::linorder) \<Rightarrow> 'a list \<Rightarrow> nat \<Rightarrow> nat \<Rightarrow> bool" where
  "sorted_in key xs a b = (\<forall>i j. a \<le> i \<and> i \<le> j \<and> j < b \<longrightarrow> key (xs ! i) \<le> key (xs ! j))"

text \<open>\<open>same_order key xs ys\<close>: elements of equal key stand in \<open>ys\<close> in the order they have in \<open>xs\<close>.\<close>

definition same_order :: "('a \<Rightarrow> 'k) \<Rightarrow> 'a list \<Rightarrow> 'a list \<Rightarrow> bool" where
  "same_order key xs ys = (\<forall>k. filter (\<lambda>x. key x = k) ys = filter (\<lambda>x. key x = k) xs)"

lemma cmp_byD: "cmp_by key cmp \<Longrightarrow> (cmp x y < 0) = (key x < key y)"
  by (simp add: cmp_by_def)

lemma length_swap [simp]: "length (swap xs i j) = length xs"
  by (simp add: swap_def)

lemma nth_swap:
  "i < length xs \<Longrightarrow> j < length xs \<Longrightarrow>
     swap xs i j ! k = (if k = j then xs ! i else if k = i then xs ! j else xs ! k)"
  by (auto simp: swap_def nth_list_update)

lemma swap_same [simp]: "swap xs i i = xs"
  by (simp add: swap_def)

lemma mset_swap_list: "i < length xs \<Longrightarrow> j < length xs \<Longrightarrow> mset (swap xs i j) = mset xs"
  unfolding swap_def by (rule mset_swap)

lemma length_segment: "b \<le> length xs \<Longrightarrow> length (segment xs a b) = b - a"
  by (simp add: segment_def)

lemma nth_segment: "b \<le> length xs \<Longrightarrow> k < b - a \<Longrightarrow> segment xs a b ! k = xs ! (a + k)"
  by (simp add: segment_def)

lemma set_segment:
  assumes "b \<le> length xs"
  shows "set (segment xs a b) = {xs ! k | k. a \<le> k \<and> k < b}"
proof -
  have "set (segment xs a b) = (\<lambda>k. segment xs a b ! k) ` {..<b - a}"
    using assms by (auto simp: set_conv_nth length_segment)
  also have "\<dots> = (\<lambda>k. xs ! (a + k)) ` {..<b - a}"
    using assms by (intro image_cong) (simp_all add: nth_segment)
  also have "\<dots> = {xs ! k | k. a \<le> k \<and> k < b}"
  proof (intro set_eqI iffI)
    fix x assume "x \<in> (\<lambda>k. xs ! (a + k)) ` {..<b - a}"
    then obtain k where "x = xs ! (a + k)" "k < b - a" by auto
    then have "x = xs ! (a + k) \<and> a \<le> a + k \<and> a + k < b" by simp
    then show "x \<in> {xs ! k | k. a \<le> k \<and> k < b}" by blast
  next
    fix x assume "x \<in> {xs ! k | k. a \<le> k \<and> k < b}"
    then obtain k where "x = xs ! k" "a \<le> k" "k < b" by auto
    then have "x = xs ! (a + (k - a))" "k - a \<in> {..<b - a}" by simp_all
    then show "x \<in> (\<lambda>k. xs ! (a + k)) ` {..<b - a}" by (rule image_eqI)
  qed
  finally show ?thesis .
qed

lemma segment_split:
  assumes "a \<le> m" "m \<le> b"
  shows "segment xs a b = segment xs a m @ segment xs m b"
proof -
  have "take (b - a) (drop a xs) = take (m - a) (drop a xs) @ take (b - m) (drop (m - a) (drop a xs))"
    using assms by (metis take_add add.commute
        le_add_diff_inverse ordered_cancel_comm_monoid_diff_class.add_diff_assoc2)
  then show ?thesis using assms by (simp add: segment_def)
qed

lemma whole_split:
  assumes "a \<le> b"
  shows "xs = take a xs @ segment xs a b @ drop b xs"
proof -
  have "drop a xs = take (b - a) (drop a xs) @ drop (b - a) (drop a xs)"
    by (simp only: append_take_drop_id)
  then have "drop a xs = segment xs a b @ drop b xs"
    using assms by (simp add: segment_def)
  then show ?thesis
    by (metis append_take_drop_id)
qed

lemma range_perm_refl [simp]: "range_perm xs xs a b"
  by (simp add: range_perm_def)

lemma range_perm_trans: "range_perm xs ys a b \<Longrightarrow> range_perm ys zs a b \<Longrightarrow> range_perm xs zs a b"
  by (simp add: range_perm_def)

lemma range_perm_length: "range_perm xs ys a b \<Longrightarrow> length ys = length xs"
  by (simp add: range_perm_def)

lemma range_perm_mset:
  assumes "range_perm xs ys a b" "a \<le> b"
  shows "mset ys = mset xs"
proof -
  have "mset ys = mset (take a ys) + mset (segment ys a b) + mset (drop b ys)"
    using whole_split [OF assms(2), of ys] by (metis mset_append add.assoc)
  also have "\<dots> = mset (take a xs) + mset (segment xs a b) + mset (drop b xs)"
    using assms(1) by (simp add: range_perm_def)
  also have "\<dots> = mset xs"
    using whole_split [OF assms(2), of xs] by (metis mset_append add.assoc)
  finally show ?thesis .
qed

lemma range_perm_nth_below:
  assumes "range_perm xs ys a b" "k < a"
  shows "ys ! k = xs ! k"
proof -
  have "take a ys ! k = take a xs ! k" using assms(1) by (simp add: range_perm_def)
  with assms(2) show ?thesis by simp
qed

lemma range_perm_nth_above:
  assumes "range_perm xs ys a b" "b \<le> k" "b \<le> length xs"
  shows "ys ! k = xs ! k"
proof -
  have l: "length ys = length xs" and d: "drop b ys = drop b xs"
    using assms(1) by (simp_all add: range_perm_def)
  have "drop b ys ! (k - b) = drop b xs ! (k - b)" by (simp add: d)
  then show ?thesis using assms(2,3) l by simp
qed

lemma range_perm_set:
  assumes "range_perm xs ys a b" "b \<le> length xs"
  shows "{ys ! k | k. a \<le> k \<and> k < b} = {xs ! k | k. a \<le> k \<and> k < b}"
proof -
  have "set (segment ys a b) = set (segment xs a b)"
    using assms(1) by (metis range_perm_def mset_eq_setD)
  then show ?thesis
    using assms by (simp add: set_segment range_perm_length)
qed

lemma range_perm_all:
  assumes "range_perm xs ys a b" "b \<le> length xs"
    and "\<And>k. a \<le> k \<Longrightarrow> k < b \<Longrightarrow> P (xs ! k)"
    and "a \<le> k" "k < b"
  shows "P (ys ! k)"
proof -
  have "ys ! k \<in> {ys ! k | k. a \<le> k \<and> k < b}" using assms(4,5) by blast
  then have "ys ! k \<in> {xs ! k | k. a \<le> k \<and> k < b}"
    using range_perm_set [OF assms(1,2)] by simp
  then show ?thesis using assms(3) by auto
qed

lemma range_perm_mono:
  assumes "range_perm xs ys a' b'" "a \<le> a'" "a' \<le> b'" "b' \<le> b" "b \<le> length xs"
  shows "range_perm xs ys a b"
proof -
  have l: "length ys = length xs" using assms(1) by (rule range_perm_length)
  have t: "take a' ys = take a' xs" and d: "drop b' ys = drop b' xs"
    and m: "mset (segment ys a' b') = mset (segment xs a' b')"
    using assms(1) by (simp_all add: range_perm_def)
  have ta: "take a ys = take a xs"
    using t assms(2) by (metis min.absorb1 take_take)
  have db: "drop b ys = drop b xs"
    using d assms(4) by (metis drop_drop le_add_diff_inverse2)
  have s1: "segment ys a a' = segment xs a a'"
    using t by (metis segment_def drop_take)
  have s3: "segment ys b' b = segment xs b' b"
    using d by (simp add: segment_def)
  have a'b: "a' \<le> b" using assms(3,4) by simp
  have "segment ys a b = segment ys a a' @ segment ys a' b' @ segment ys b' b"
    using assms(2,3,4) a'b by (simp add: segment_split [of a a' b] segment_split [of a' b' b])
  moreover have "segment xs a b = segment xs a a' @ segment xs a' b' @ segment xs b' b"
    using assms(2,3,4) a'b by (simp add: segment_split [of a a' b] segment_split [of a' b' b])
  ultimately have "mset (segment ys a b) = mset (segment xs a b)"
    by (simp add: s1 s3 m)
  with l ta db show ?thesis by (simp add: range_perm_def)
qed

lemma range_perm_swap:
  assumes "a \<le> i" "i < b" "a \<le> j" "j < b" "b \<le> length xs"
  shows "range_perm xs (swap xs i j) a b"
proof -
  have "segment (swap xs i j) a b = swap (segment xs a b) (i - a) (j - a)"
  proof (rule nth_equalityI)
    show "length (segment (swap xs i j) a b) = length (swap (segment xs a b) (i - a) (j - a))"
      using assms by (simp add: length_segment)
  next
    fix k assume "k < length (segment (swap xs i j) a b)"
    then have k: "k < b - a" using assms by (simp add: length_segment)
    then show "segment (swap xs i j) a b ! k = swap (segment xs a b) (i - a) (j - a) ! k"
      using assms by (auto simp: nth_segment nth_swap length_segment)
  qed
  then have "mset (segment (swap xs i j) a b) = mset (segment xs a b)"
    using assms by (simp add: mset_swap_list length_segment)
  moreover have "take a (swap xs i j) = take a xs"
    using assms by (simp add: swap_def)
  moreover have "drop b (swap xs i j) = drop b xs"
    using assms by (simp add: swap_def)
  ultimately show ?thesis by (simp add: range_perm_def)
qed

lemma sorted_in_whole: "sorted_in key xs 0 (length xs) = sorted (map key xs)"
  by (auto simp: sorted_in_def sorted_iff_nth_mono)

lemma sorted_in_single: "b \<le> Suc a \<Longrightarrow> sorted_in key xs a b"
  unfolding sorted_in_def
proof (intro allI impI)
  fix i j assume "b \<le> Suc a" "a \<le> i \<and> i \<le> j \<and> j < b"
  then have "i = j" by linarith
  then show "key (xs ! i) \<le> key (xs ! j)" by simp
qed

lemma sorted_in_adjacent:
  assumes "\<And>j. a < j \<Longrightarrow> j < b \<Longrightarrow> key (xs ! (j - 1)) \<le> key (xs ! j)"
  shows "sorted_in key xs a b"
proof -
  have "key (xs ! i) \<le> key (xs ! (i + d))" if "a \<le> i" "i + d < b" for i d
    using that
  proof (induction d)
    case 0
    then show ?case by simp
  next
    case (Suc d)
    then have "key (xs ! i) \<le> key (xs ! (i + d))" by simp
    also have "\<dots> \<le> key (xs ! (i + Suc d))"
      using assms [of "i + Suc d"] Suc.prems by simp
    finally show ?case .
  qed
  then show ?thesis
    unfolding sorted_in_def by (metis le_add_diff_inverse)
qed

lemma same_order_refl [simp]: "same_order key xs xs"
  by (simp add: same_order_def)

lemma same_order_trans: "same_order key xs ys \<Longrightarrow> same_order key ys zs \<Longrightarrow> same_order key xs zs"
  by (simp add: same_order_def)

lemma same_order_swap_adjacent:
  assumes "0 < j" "j < length xs" "key (xs ! j) \<noteq> key (xs ! (j - 1))"
  shows "same_order key xs (swap xs j (j - 1))"
proof -
  obtain i where j: "j = Suc i" using assms(1) by (cases j) auto
  have xs: "xs = take i xs @ xs ! i # xs ! Suc i # drop (Suc (Suc i)) xs"
    using assms(2) j by (metis Cons_nth_drop_Suc Suc_lessD append_take_drop_id)
  have len: "length (take i xs) = i" using assms(2) j by simp
  have "swap xs (Suc i) i = take i xs @ xs ! Suc i # xs ! i # drop (Suc (Suc i)) xs"
  proof -
    have "swap xs (Suc i) i
            = (take i xs @ xs ! i # xs ! Suc i # drop (Suc (Suc i)) xs)[Suc i := xs ! i, i := xs ! Suc i]"
      unfolding swap_def using xs by simp
    also have "\<dots> = take i xs @ xs ! Suc i # xs ! i # drop (Suc (Suc i)) xs"
      using len by (simp add: list_update_append)
    finally show ?thesis .
  qed
  then have "filter (\<lambda>x. key x = k) (swap xs (Suc i) i) = filter (\<lambda>x. key x = k) xs" for k
    using assms(3) j by (subst (2) xs) auto
  then show ?thesis by (simp add: same_order_def j)
qed


subsection \<open>Insertion sort\<close>

text \<open>
  While the inner loop moves the element at \<open>j\<close> to the left, the range up to \<open>J\<close> is
  sorted but for that element: sorted before \<open>j\<close>, sorted from \<open>j\<close> on, and nothing
  before \<open>j\<close> is above anything after \<open>j\<close>.
\<close>

definition shifting :: "('a \<Rightarrow> 'k::linorder) \<Rightarrow> 'a list \<Rightarrow> nat \<Rightarrow> nat \<Rightarrow> nat \<Rightarrow> bool" where
  "shifting key data a j J =
     (sorted_in key data a j \<and> sorted_in key data j (Suc J)
      \<and> (\<forall>i k. a \<le> i \<and> i < j \<and> j < k \<and> k \<le> J \<longrightarrow> key (data ! i) \<le> key (data ! k)))"

lemma shifting_step:
  assumes "a < j" "j \<le> J" "J < length data" "key (data ! j) < key (data ! (j - 1))"
    and "shifting key data a j J"
  shows "shifting key (swap data j (j - 1)) a (j - 1) J"
proof -
  let ?d = "swap data j (j - 1)"
  have s1: "sorted_in key data a j" and s2: "sorted_in key data j (Suc J)"
    and s3: "\<And>i k. a \<le> i \<Longrightarrow> i < j \<Longrightarrow> j < k \<Longrightarrow> k \<le> J \<Longrightarrow> key (data ! i) \<le> key (data ! k)"
    using assms(5) by (auto simp: shifting_def)
  have jn [simp]: "j - Suc 0 \<noteq> j" "j \<noteq> j - Suc 0" using assms(1) by linarith+
  have n: "swap data j (j - Suc 0) ! k
             = (if k = j - Suc 0 then data ! j else if k = j then data ! (j - Suc 0) else data ! k)" for k
    using assms(1,2,3) by (simp add: nth_swap)
  have "sorted_in key ?d a (j - 1)"
    using s1 assms(1) by (auto simp: sorted_in_def n)
  moreover have "sorted_in key ?d (j - 1) (Suc J)"
  proof (rule sorted_in_adjacent)
    fix m assume m: "j - 1 < m" "m < Suc J"
    consider "m = j" | "m = Suc j" | "Suc j < m" using m by linarith
    then show "key (?d ! (m - 1)) \<le> key (?d ! m)"
    proof cases
      case 1
      then show ?thesis using assms(1,4) by (simp add: n less_imp_le)
    next
      case 2
      have "key (data ! (j - Suc 0)) \<le> key (data ! Suc j)"
        by (rule s3) (use assms(1) m 2 in linarith)+
      moreover have "Suc j \<noteq> j - Suc 0" by linarith
      ultimately show ?thesis using 2 by (simp add: n)
    next
      case 3
      then have "key (data ! (m - 1)) \<le> key (data ! m)"
        using s2 m by (simp add: sorted_in_def)
      moreover have "m - Suc 0 \<noteq> j" "m - Suc 0 \<noteq> j - Suc 0" "m \<noteq> j" "m \<noteq> j - Suc 0"
        using 3 assms(1) by linarith+
      ultimately show ?thesis by (simp add: n)
    qed
  qed
  moreover have "key (?d ! i) \<le> key (?d ! k)" if "a \<le> i" "i < j - 1" "j - 1 < k" "k \<le> J" for i k
  proof (cases "k = j")
    case True
    have ne: "i \<noteq> j" "i \<noteq> j - Suc 0" using that by linarith+
    have "key (data ! i) \<le> key (data ! (j - Suc 0))"
      using s1 that assms(1) by (simp add: sorted_in_def)
    with True ne show ?thesis by (simp add: n)
  next
    case False
    have ne: "i \<noteq> j" "i \<noteq> j - Suc 0" "k \<noteq> j - Suc 0" using that by linarith+
    have "key (data ! i) \<le> key (data ! k)"
      by (rule s3) (use that False in linarith)+
    with False ne show ?thesis by (simp add: n)
  qed
  ultimately show ?thesis by (simp add: shifting_def)
qed

lemma shifting_done:
  assumes "shifting key data a j J" "a \<le> j" "j \<le> J"
    and "j = a \<or> key (data ! (j - 1)) \<le> key (data ! j)"
  shows "sorted_in key data a (Suc J)"
proof -
  have s1: "sorted_in key data a j" and s2: "sorted_in key data j (Suc J)"
    and s3: "\<And>i k. a \<le> i \<Longrightarrow> i < j \<Longrightarrow> j < k \<Longrightarrow> k \<le> J \<Longrightarrow> key (data ! i) \<le> key (data ! k)"
    using assms(1) by (auto simp: shifting_def)
  show ?thesis
  proof (cases "j = a")
    case True
    with s2 show ?thesis by simp
  next
    case False
    with assms have le: "key (data ! (j - 1)) \<le> key (data ! j)" and aj: "a < j" by simp_all
    show ?thesis
      unfolding sorted_in_def
    proof (intro allI impI)
      fix i k assume ik: "a \<le> i \<and> i \<le> k \<and> k < Suc J"
      consider "k < j" | "j \<le> i" | "i < j" "k = j" | "i < j" "j < k" using ik by linarith
      then show "key (data ! i) \<le> key (data ! k)"
      proof cases
        case 1
        then show ?thesis using s1 ik by (simp add: sorted_in_def)
      next
        case 2
        then show ?thesis using s2 ik by (simp add: sorted_in_def)
      next
        case 3
        then have "key (data ! i) \<le> key (data ! (j - 1))"
          using s1 ik by (simp add: sorted_in_def)
        with le 3 show ?thesis by simp
      next
        case 4
        then show ?thesis using s3 [of i k] ik by simp
      qed
    qed
  qed
qed

lemma insertionSort_inner_spec:
  "cmp_by key cmp \<Longrightarrow> a \<le> j \<Longrightarrow> j \<le> J \<Longrightarrow> J < length data \<Longrightarrow> shifting key data a j J \<Longrightarrow>
           sorted_in key (insertionSort_inner cmp data a j) a (Suc J)
           \<and> range_perm data (insertionSort_inner cmp data a j) a (Suc J)
           \<and> same_order key data (insertionSort_inner cmp data a j)"
proof (induction cmp data a j rule: insertionSort_inner.induct)
  case (1 cmp data a j)
  show ?case
  proof (cases "a < j \<and> cmp (data ! j) (data ! (j - 1)) < 0")
    case True
    then have T: "a < j" "cmp (data ! j) (data ! (j - 1)) < 0" by simp_all
    then have lt: "key (data ! j) < key (data ! (j - 1))"
      using "1.prems"(1) by (simp add: cmp_byD)
    let ?d = "swap data j (j - 1)"
    have sh: "shifting key ?d a (j - 1) J"
      using T "1.prems" lt by (intro shifting_step) simp_all
    have aj: "a \<le> j - 1" "j - 1 \<le> J" "j - 1 < Suc J" "0 < j" using T "1.prems" by linarith+
    have ih: "sorted_in key (insertionSort_inner cmp ?d a (j - 1)) a (Suc J)
           \<and> range_perm ?d (insertionSort_inner cmp ?d a (j - 1)) a (Suc J)
           \<and> same_order key ?d (insertionSort_inner cmp ?d a (j - 1))"
      using True "1.prems" sh aj by (intro "1.IH") simp_all
    have rp: "range_perm data ?d a (Suc J)"
      using T "1.prems" aj by (intro range_perm_swap) simp_all
    have so: "same_order key data ?d"
      using T "1.prems" lt aj by (intro same_order_swap_adjacent) simp_all
    have "insertionSort_inner cmp data a j = insertionSort_inner cmp ?d a (j - 1)"
      using True by (subst insertionSort_inner.simps) simp
    with ih rp so show ?thesis
      by (auto intro: range_perm_trans same_order_trans)
  next
    case False
    then have r: "insertionSort_inner cmp data a j = data"
      by (subst insertionSort_inner.simps) auto
    have "j = a \<or> key (data ! (j - 1)) \<le> key (data ! j)"
      using False "1.prems"(1,2) by (auto simp: cmp_byD not_less)
    then have "sorted_in key data a (Suc J)"
      using "1.prems" by (intro shifting_done [of key data a j J]) simp_all
    then show ?thesis by (simp add: r)
  qed
qed

lemma insertionSort_outer_spec:
  "cmp_by key cmp \<Longrightarrow> a < i \<Longrightarrow> i \<le> b \<Longrightarrow> b \<le> length data \<Longrightarrow> sorted_in key data a i \<Longrightarrow>
           sorted_in key (insertionSort_outer cmp data a b i) a b
           \<and> range_perm data (insertionSort_outer cmp data a b i) a b
           \<and> same_order key data (insertionSort_outer cmp data a b i)"
proof (induction cmp data a b i rule: insertionSort_outer.induct)
  case (1 cmp data a b i)
  show ?case
  proof (cases "i < b")
    case True
    let ?d = "insertionSort_inner cmp data a i"
    have "shifting key data a i i"
      using "1.prems" by (auto simp: shifting_def sorted_in_single)
    then have inner: "sorted_in key ?d a (Suc i) \<and> range_perm data ?d a (Suc i) \<and> same_order key data ?d"
      using True "1.prems" by (intro insertionSort_inner_spec) simp_all
    then have len: "length ?d = length data" by (auto dest: range_perm_length)
    have ih: "sorted_in key (insertionSort_outer cmp ?d a b (i + 1)) a b
           \<and> range_perm ?d (insertionSort_outer cmp ?d a b (i + 1)) a b
           \<and> same_order key ?d (insertionSort_outer cmp ?d a b (i + 1))"
      using True "1.prems" inner len by (intro "1.IH") simp_all
    have rp: "range_perm data ?d a b"
      using inner True "1.prems" by (intro range_perm_mono [of data ?d a "Suc i" a b]) simp_all
    have "insertionSort_outer cmp data a b i = insertionSort_outer cmp ?d a b (i + 1)"
      using True by (subst insertionSort_outer.simps) simp
    with ih rp inner show ?thesis
      by (auto intro: range_perm_trans same_order_trans)
  next
    case False
    then have "insertionSort_outer cmp data a b i = data"
      by (subst insertionSort_outer.simps) simp
    moreover have "i = b" using False "1.prems" by simp
    ultimately show ?thesis using "1.prems" by simp
  qed
qed

lemma insertionSortCmpFunc_spec:
  assumes "cmp_by key cmp" "b \<le> length data"
  shows "sorted_in key (insertionSortCmpFunc cmp data a b) a b
         \<and> range_perm data (insertionSortCmpFunc cmp data a b) a b
         \<and> same_order key data (insertionSortCmpFunc cmp data a b)"
proof (cases "a + 1 \<le> b")
  case True
  have "sorted_in key data a (a + 1)" by (simp add: sorted_in_single)
  then show ?thesis
    unfolding insertionSortCmpFunc_def
    using True assms by (intro insertionSort_outer_spec) simp_all
next
  case False
  then have "insertionSortCmpFunc cmp data a b = data"
    unfolding insertionSortCmpFunc_def by (subst insertionSort_outer.simps) simp
  moreover have "sorted_in key data a b" using False by (simp add: sorted_in_single)
  ultimately show ?thesis by simp
qed


subsection \<open>Ranges of at most twelve elements, and ranges already in order\<close>

lemma sort_key_unique:
  assumes "sorted (map key ys)" "mset ys = mset xs" "same_order key xs ys"
  shows "sort_key key xs = ys"
proof (rule properties_for_sort_key)
  show "mset ys = mset xs" by fact
  show "sorted (map key ys)" by fact
  fix k assume "k \<in> set ys"
  have "filter (\<lambda>x. key x = key k) ys = filter (\<lambda>x. key x = key k) xs"
    using assms(3) by (simp add: same_order_def)
  then show "filter (\<lambda>x. key k = key x) ys = filter (\<lambda>x. key k = key x) xs"
    by (simp add: eq_commute [of "key k"])
qed

lemma SortFunc_short_stable:
  assumes "cmp_by key cmp" "length xs \<le> 12"
  shows "SortFunc xs cmp = sort_key key xs"
proof -
  let ?ys = "insertionSortCmpFunc cmp xs 0 (length xs)"
  have s: "sorted_in key ?ys 0 (length xs)" and p: "range_perm xs ?ys 0 (length xs)"
    and o: "same_order key xs ?ys"
    using insertionSortCmpFunc_spec [OF assms(1), of "length xs" xs 0] by simp_all
  have l: "length ?ys = length xs" using p by (rule range_perm_length)
  have "sorted (map key ?ys)" using s sorted_in_whole [of key ?ys] by (simp add: l)
  moreover have "mset ?ys = mset xs" using p by (rule range_perm_mset) simp
  ultimately have "sort_key key xs = ?ys" using o by (rule sort_key_unique)
  then show ?thesis using assms(2) by (simp add: SortFunc_short)
qed

lemma order2CmpFunc_sorted:
  assumes "cmp_by key cmp" "sorted_in key data a b" "a \<le> x" "x \<le> y" "y < b"
  shows "order2CmpFunc cmp data x y s = (x, y, s)"
proof -
  have "key (data ! x) \<le> key (data ! y)" using assms(2-5) by (simp add: sorted_in_def)
  then show ?thesis using assms(1) by (simp add: order2CmpFunc_def cmp_byD not_less)
qed

lemma medianCmpFunc_sorted:
  assumes "cmp_by key cmp" "sorted_in key data a b" "a \<le> x" "x \<le> y" "y \<le> z" "z < b"
  shows "medianCmpFunc cmp data x y z s = (y, s)"
proof -
  have "order2CmpFunc cmp data x y s = (x, y, s)"
    using assms by (intro order2CmpFunc_sorted [of key cmp data a b]) simp_all
  moreover have "order2CmpFunc cmp data y z s = (y, z, s)"
    using assms by (intro order2CmpFunc_sorted [of key cmp data a b]) simp_all
  ultimately show ?thesis by (simp add: medianCmpFunc_def)
qed

lemma choosePivotCmpFunc_sorted:
  assumes "cmp_by key cmp" "sorted_in key data a b" "8 \<le> b - a"
  shows "snd (choosePivotCmpFunc cmp data a b) = increasingHint"
proof -
  define q where "q = (b - a) div 4"
  have q: "2 \<le> q" "a + q * 3 + 1 < b" using assms(3) by (simp_all add: q_def)
  have m: "medianCmpFunc cmp data x y z s = (y, s)" if "a \<le> x" "x \<le> y" "y \<le> z" "z < b" for x y z s
    using assms(1,2) that by (rule medianCmpFunc_sorted)
  have adj: "medianAdjacentCmpFunc cmp data x s = (x, s)" if "a < x" "x + 1 < b" for x s
    unfolding medianAdjacentCmpFunc_def using that by (intro m) simp_all
  have 1: "medianAdjacentCmpFunc cmp data (a + q) s = (a + q, s)" for s
    using q by (intro adj) simp_all
  have 2: "medianAdjacentCmpFunc cmp data (a + q * 2) s = (a + q * 2, s)" for s
    using q by (intro adj) simp_all
  have 3: "medianAdjacentCmpFunc cmp data (a + q * 3) s = (a + q * 3, s)" for s
    using q by (intro adj) simp_all
  have 4: "medianCmpFunc cmp data (a + q) (a + q * 2) (a + q * 3) s = (a + q * 2, s)" for s
    using q by (intro m) simp_all
  show ?thesis
    using assms(3) unfolding choosePivotCmpFunc_def Let_def q_def [symmetric]
    by (simp add: 1 2 3 4)
qed

lemma partialInsertionSort_scan_sorted:
  "cmp_by key cmp \<Longrightarrow> sorted_in key data a b \<Longrightarrow> a < i \<Longrightarrow> i \<le> b \<Longrightarrow>
     partialInsertionSort_scan cmp data i b = b"
proof (induction cmp data i b rule: partialInsertionSort_scan.induct)
  case (1 cmp data i b)
  show ?case
  proof (cases "i < b")
    case True
    have "a \<le> i - 1" "i - 1 \<le> i" using "1.prems"(3) by linarith+
    then have "key (data ! (i - 1)) \<le> key (data ! i)"
      using "1.prems"(2) True unfolding sorted_in_def by blast
    then have n: "\<not> cmp (data ! i) (data ! (i - 1)) < 0"
      using "1.prems"(1) by (simp add: cmp_byD not_less)
    have "partialInsertionSort_scan cmp data (i + 1) b = b"
      using True n "1.prems" by (intro "1.IH") simp_all
    then show ?thesis using True n by (subst partialInsertionSort_scan.simps) simp
  next
    case False
    then show ?thesis using "1.prems"(4) by (subst partialInsertionSort_scan.simps) simp
  qed
qed

lemma partialInsertionSortCmpFunc_sorted:
  assumes "cmp_by key cmp" "sorted_in key data a b" "a < b"
  shows "partialInsertionSortCmpFunc cmp data a b = (True, data)"
proof -
  have "partialInsertionSort_scan cmp data (a + 1) b = b"
    using assms by (intro partialInsertionSort_scan_sorted [of key cmp data a b]) simp_all
  moreover have "(5::nat) = Suc 4" by simp
  ultimately show ?thesis
    unfolding partialInsertionSortCmpFunc_def by (simp only: partialInsertionSort_steps.simps Let_def) simp
qed

lemma pdqsort_prepare_sorted:
  assumes "cmp_by key cmp" "sorted_in key data a b" "8 \<le> b - a"
  shows "fst (pdqsort_prepare cmp data a b limit True True) = True
       \<and> fst (snd (pdqsort_prepare cmp data a b limit True True)) = data"
proof -
  obtain p h where c: "choosePivotCmpFunc cmp data a b = (p, h)"
    by (cases "choosePivotCmpFunc cmp data a b")
  then have h: "h = increasingHint"
    using choosePivotCmpFunc_sorted [OF assms] by simp
  have "partialInsertionSortCmpFunc cmp data a b = (True, data)"
    using assms by (intro partialInsertionSortCmpFunc_sorted [of key]) simp_all
  then show ?thesis
    by (simp add: pdqsort_prepare_def c h)
qed

lemma bits_Len_pos: "0 < n \<Longrightarrow> 0 < bits_Len n"
  by (subst bits_Len.simps) simp

lemma pdqsortCmpFunc_sorted:
  assumes "cmp_by key cmp" "sorted_in key data a b" "12 < b - a" "0 < limit"
  shows "pdqsortCmpFunc cmp data a b limit True True = data"
proof -
  have "8 \<le> b - a" using assms(3) by simp
  from pdqsort_prepare_sorted [OF assms(1,2) this, of limit]
  obtain p l where "pdqsort_prepare cmp data a b limit True True = (True, data, p, l)"
    by (cases "pdqsort_prepare cmp data a b limit True True") auto
  then show ?thesis using assms(3,4)
    by (subst pdqsortCmpFunc.simps) simp
qed

lemma SortFunc_sorted_id:
  assumes "cmp_by key cmp" "sorted (map key xs)"
  shows "SortFunc xs cmp = xs"
proof (cases "length xs \<le> 12")
  case True
  then have "SortFunc xs cmp = sort_key key xs" using assms(1) by (intro SortFunc_short_stable)
  then show ?thesis using assms(2) by (simp add: sort_key_id_if_sorted)
next
  case False
  have "sorted_in key xs 0 (length xs)" using assms(2) by (simp add: sorted_in_whole)
  then have "pdqsortCmpFunc cmp xs 0 (length xs) (bits_Len (length xs)) True True = xs"
    using assms(1) False by (intro pdqsortCmpFunc_sorted [of key] bits_Len_pos) auto
  then show ?thesis by (simp add: SortFunc_def)
qed

subsection \<open>The partitions\<close>

text \<open>
  \<open>parted key data a i jj b\<close>: with the pivot at \<open>a\<close>, the elements after it and before
  \<open>i\<close> are below the pivot, those from \<open>jj\<close> on are not. \<open>pivoted key data a mid b\<close>: the
  pivot stands at \<open>mid\<close> between the ones below it and the others.
\<close>

definition parted :: "('a \<Rightarrow> 'k::linorder) \<Rightarrow> 'a list \<Rightarrow> nat \<Rightarrow> nat \<Rightarrow> nat \<Rightarrow> nat \<Rightarrow> bool" where
  "parted key data a i jj b =
     ((\<forall>k. a < k \<and> k < i \<longrightarrow> key (data ! k) < key (data ! a))
      \<and> (\<forall>k. jj \<le> k \<and> k < b \<longrightarrow> key (data ! a) \<le> key (data ! k)))"

definition pivoted :: "('a \<Rightarrow> 'k::linorder) \<Rightarrow> 'a list \<Rightarrow> nat \<Rightarrow> nat \<Rightarrow> nat \<Rightarrow> bool" where
  "pivoted key data a mid b =
     ((\<forall>k. a \<le> k \<and> k < mid \<longrightarrow> key (data ! k) < key (data ! mid))
      \<and> (\<forall>k. mid < k \<and> k < b \<longrightarrow> key (data ! mid) \<le> key (data ! k)))"

lemma partition_scanI_spec:
  "cmp_by key cmp \<Longrightarrow> i \<le> jj \<Longrightarrow>
     (\<forall>k. i \<le> k \<and> k < partition_scanI cmp data a i jj \<longrightarrow> key (data ! k) < key (data ! a))
     \<and> (partition_scanI cmp data a i jj < jj \<longrightarrow>
          key (data ! a) \<le> key (data ! partition_scanI cmp data a i jj))"
proof (induction cmp data a i jj rule: partition_scanI.induct)
  case (1 cmp data a i jj)
  show ?case
  proof (cases "i < jj \<and> cmp (data ! i) (data ! a) < 0")
    case True
    define r where "r = partition_scanI cmp data a (i + 1) jj"
    have e: "partition_scanI cmp data a i jj = r"
      using True unfolding r_def by (subst partition_scanI.simps) simp
    have ih: "(\<forall>k. i + 1 \<le> k \<and> k < r \<longrightarrow> key (data ! k) < key (data ! a))
               \<and> (r < jj \<longrightarrow> key (data ! a) \<le> key (data ! r))"
      unfolding r_def using True "1.prems" by (intro "1.IH") simp_all
    have lt: "key (data ! i) < key (data ! a)" using True "1.prems"(1) by (simp add: cmp_byD)
    have "key (data ! k) < key (data ! a)" if "i \<le> k" "k < r" for k
    proof (cases "k = i")
      case True
      then show ?thesis using lt by simp
    next
      case False
      then have "i + 1 \<le> k" using that by simp
      then show ?thesis using ih that by blast
    qed
    then show ?thesis unfolding e using ih by blast
  next
    case False
    then have e: "partition_scanI cmp data a i jj = i"
      by (subst partition_scanI.simps) auto
    show ?thesis unfolding e using False "1.prems" by (auto simp: cmp_byD not_less)
  qed
qed

lemma partition_scanJ_spec:
  "cmp_by key cmp \<Longrightarrow> i \<le> jj \<Longrightarrow>
     (\<forall>k. partition_scanJ cmp data a i jj \<le> k \<and> k < jj \<longrightarrow> key (data ! a) \<le> key (data ! k))
     \<and> (i < partition_scanJ cmp data a i jj \<longrightarrow>
          key (data ! (partition_scanJ cmp data a i jj - 1)) < key (data ! a))"
proof (induction cmp data a i jj rule: partition_scanJ.induct)
  case (1 cmp data a i jj)
  show ?case
  proof (cases "i < jj \<and> \<not> cmp (data ! (jj - 1)) (data ! a) < 0")
    case True
    define r where "r = partition_scanJ cmp data a i (jj - 1)"
    have e: "partition_scanJ cmp data a i jj = r"
      using True unfolding r_def by (subst partition_scanJ.simps) simp
    have ih: "(\<forall>k. r \<le> k \<and> k < jj - 1 \<longrightarrow> key (data ! a) \<le> key (data ! k))
               \<and> (i < r \<longrightarrow> key (data ! (r - 1)) < key (data ! a))"
      unfolding r_def using True "1.prems" by (intro "1.IH") auto
    have le: "key (data ! a) \<le> key (data ! (jj - 1))"
      using True "1.prems"(1) by (simp add: cmp_byD not_less)
    have "key (data ! a) \<le> key (data ! k)" if "r \<le> k" "k < jj" for k
    proof (cases "k = jj - 1")
      case True
      then show ?thesis using le by simp
    next
      case False
      then have "k < jj - 1" using that by simp
      then show ?thesis using ih that by blast
    qed
    then show ?thesis unfolding e using ih by blast
  next
    case False
    then have e: "partition_scanJ cmp data a i jj = jj"
      by (subst partition_scanJ.simps) auto
    show ?thesis unfolding e using False "1.prems" by (auto simp: cmp_byD not_less)
  qed
qed

lemma parted_scans:
  assumes "cmp_by key cmp" "a < i" "i \<le> jj" "jj \<le> b" "parted key data a i jj b"
  defines "i' \<equiv> partition_scanI cmp data a i jj"
  defines "jj' \<equiv> partition_scanJ cmp data a i' jj"
  shows "i \<le> i'" "i' \<le> jj'" "jj' \<le> jj" "parted key data a i' jj' b"
    "i' < jj' \<Longrightarrow> key (data ! a) \<le> key (data ! i')"
    "i' < jj' \<Longrightarrow> key (data ! (jj' - 1)) < key (data ! a)"
proof -
  show 1: "i \<le> i'" by (simp add: i'_def partition_scanI_ge)
  have 2: "i' \<le> jj" using assms(3) by (simp add: i'_def partition_scanI_le)
  show 3: "i' \<le> jj'" using 2 by (simp add: jj'_def partition_scanJ_ge)
  show 4: "jj' \<le> jj" by (simp add: jj'_def partition_scanJ_le)
  have I: "\<forall>k. i \<le> k \<and> k < i' \<longrightarrow> key (data ! k) < key (data ! a)"
    and I': "i' < jj \<longrightarrow> key (data ! a) \<le> key (data ! i')"
    using partition_scanI_spec [OF assms(1,3), of data a] by (simp_all add: i'_def)
  have J: "\<forall>k. jj' \<le> k \<and> k < jj \<longrightarrow> key (data ! a) \<le> key (data ! k)"
    and J': "i' < jj' \<longrightarrow> key (data ! (jj' - 1)) < key (data ! a)"
    using partition_scanJ_spec [OF assms(1) 2, of data a] by (simp_all add: jj'_def)
  have L: "\<forall>k. a < k \<and> k < i \<longrightarrow> key (data ! k) < key (data ! a)"
    and R: "\<forall>k. jj \<le> k \<and> k < b \<longrightarrow> key (data ! a) \<le> key (data ! k)"
    using assms(5) by (simp_all add: parted_def)
  have "key (data ! k) < key (data ! a)" if "a < k" "k < i'" for k
    using L I that by (cases "k < i") auto
  moreover have "key (data ! a) \<le> key (data ! k)" if "jj' \<le> k" "k < b" for k
    using R J that by (cases "k < jj") auto
  ultimately show "parted key data a i' jj' b" by (simp add: parted_def)
  show "key (data ! a) \<le> key (data ! i')" if "i' < jj'" using I' that 4 by simp
  show "key (data ! (jj' - 1)) < key (data ! a)" if "i' < jj'" using J' that by simp
qed

lemma parted_swap:
  assumes "a < i'" "i' < jj'" "jj' \<le> b" "b \<le> length data" "parted key data a i' jj' b"
    and "key (data ! a) \<le> key (data ! i')" "key (data ! (jj' - 1)) < key (data ! a)"
  shows "i' + 1 \<le> jj' - 1" "parted key (swap data i' (jj' - 1)) a (i' + 1) (jj' - 1) b"
    "range_perm data (swap data i' (jj' - 1)) (a + 1) b"
proof -
  let ?d = "swap data i' (jj' - 1)"
  have ne: "i' \<noteq> jj' - 1" using assms(6,7) by auto
  then show lt: "i' + 1 \<le> jj' - 1" using assms(2) by linarith
  have n: "swap data i' (jj' - Suc 0) ! k
             = (if k = jj' - Suc 0 then data ! i' else if k = i' then data ! (jj' - Suc 0) else data ! k)" for k
    using assms(2,3,4) by (simp add: nth_swap)
  have L: "\<forall>k. a < k \<and> k < i' \<longrightarrow> key (data ! k) < key (data ! a)"
    and R: "\<forall>k. jj' \<le> k \<and> k < b \<longrightarrow> key (data ! a) \<le> key (data ! k)"
    using assms(5) by (simp_all add: parted_def)
  have a: "a \<noteq> i'" "a \<noteq> jj' - Suc 0" using assms(1,2) by linarith+
  have "key (?d ! k) < key (?d ! a)" if "a < k" "k < i' + 1" for k
  proof (cases "k = i'")
    case True
    then show ?thesis using assms(7) ne by (simp add: n a)
  next
    case False
    then have "k < i'" using that by simp
    moreover from this have "k \<noteq> jj' - 1" using lt by linarith
    ultimately show ?thesis using L that False by (simp add: n a)
  qed
  moreover have "key (?d ! a) \<le> key (?d ! k)" if "jj' - 1 \<le> k" "k < b" for k
  proof (cases "k = jj' - 1")
    case True
    then show ?thesis using assms(6) by (simp add: n a)
  next
    case False
    then have "jj' \<le> k" using that by simp
    moreover from this have "k \<noteq> i'" using assms(2) by linarith
    ultimately show ?thesis using R that False by (simp add: n a)
  qed
  ultimately show "parted key ?d a (i' + 1) (jj' - 1) b" by (simp add: parted_def)
  show "range_perm data ?d (a + 1) b"
    using assms(1-4) by (intro range_perm_swap) simp_all
qed

lemma partition_loop_spec:
  "cmp_by key cmp \<Longrightarrow> a < i \<Longrightarrow> i \<le> jj \<Longrightarrow> jj \<le> b \<Longrightarrow> b \<le> length data \<Longrightarrow>
   parted key data a i jj b \<Longrightarrow> partition_loop cmp data a i jj = (data', r) \<Longrightarrow>
     range_perm data data' (a + 1) b \<and> i \<le> r \<and> r \<le> jj \<and> parted key data' a r r b"
proof (induction cmp data a i jj arbitrary: data' r rule: partition_loop.induct)
  case (1 cmp data a i jj)
  define i' where "i' = partition_scanI cmp data a i jj"
  define jj' where "jj' = partition_scanJ cmp data a i' jj"
  note s = parted_scans [OF "1.prems"(1,2,3,4,6), folded i'_def jj'_def]
  show ?case
  proof (cases "jj' \<le> i'")
    case True
    then have "partition_loop cmp data a i jj = (data, jj')"
      by (subst partition_loop.simps) (simp add: Let_def i'_def [symmetric] jj'_def [symmetric])
    then have e: "data' = data" "r = jj'" using "1.prems"(7) by simp_all
    have "jj' = i'" using True s(2) by simp
    then show ?thesis using s by (simp add: e)
  next
    case False
    then have lt: "i' < jj'" by simp
    let ?d = "swap data i' (jj' - 1)"
    have ai: "a < i'" using "1.prems"(2) s(1) by simp
    have jb: "jj' \<le> b" using s(3) "1.prems"(4) by simp
    note w = parted_swap [OF ai lt jb "1.prems"(5) s(4) s(5) [OF lt] s(6) [OF lt]]
    have "partition_loop cmp data a i jj = partition_loop cmp ?d a (i' + 1) (jj' - 1)"
      using False
      by (subst partition_loop.simps) (simp add: Let_def i'_def [symmetric] jj'_def [symmetric])
    then have e: "partition_loop cmp ?d a (i' + 1) (jj' - 1) = (data', r)"
      using "1.prems"(7) by simp
    have ih: "range_perm ?d data' (a + 1) b \<and> i' + 1 \<le> r \<and> r \<le> jj' - 1 \<and> parted key data' a r r b"
    proof (rule "1.IH" [OF i'_def jj'_def False "1.prems"(1) _ w(1) _ _ w(2) e])
      show "a < i' + 1" using ai by simp
      show "jj' - 1 \<le> b" using jb by simp
      show "b \<le> length ?d" using "1.prems"(5) by simp
    qed
    then show ?thesis using w(3) s(1,3) by (auto intro: range_perm_trans)
  qed
qed

lemma partition_finish:
  assumes "a < r" "r \<le> b" "b \<le> length data" "parted key data a r r b"
  shows "range_perm data (swap data (r - 1) a) a b \<and> pivoted key (swap data (r - 1) a) a (r - 1) b"
proof -
  let ?d = "swap data (r - 1) a"
  have n: "swap data (r - Suc 0) a ! k
             = (if k = a then data ! (r - Suc 0) else if k = r - Suc 0 then data ! a else data ! k)" for k
    using assms(1,2,3) by (simp add: nth_swap)
  have L: "\<forall>k. a < k \<and> k < r \<longrightarrow> key (data ! k) < key (data ! a)"
    and R: "\<forall>k. r \<le> k \<and> k < b \<longrightarrow> key (data ! a) \<le> key (data ! k)"
    using assms(4) by (simp_all add: parted_def)
  have m: "swap data (r - Suc 0) a ! (r - Suc 0) = data ! a" by (auto simp: n)
  have "key (?d ! k) < key (?d ! (r - 1))" if "a \<le> k" "k < r - 1" for k
  proof (cases "k = a")
    case True
    have "a < r - 1" "r - 1 < r" using that assms(1) by linarith+
    then have "key (data ! (r - 1)) < key (data ! a)" using L by blast
    moreover have "r - Suc 0 \<noteq> a" using that by linarith
    ultimately show ?thesis using True by (simp add: n)
  next
    case False
    then have "a < k" "k < r" "k \<noteq> r - 1" using that by linarith+
    then show ?thesis using L False by (simp add: n)
  qed
  moreover have "key (?d ! (r - 1)) \<le> key (?d ! k)" if "r - 1 < k" "k < b" for k
  proof -
    have "r \<le> k" "k \<noteq> a" "k \<noteq> r - 1" using that assms(1) by linarith+
    then show ?thesis using R that by (simp add: n)
  qed
  moreover have "range_perm data ?d a b"
    using assms(1,2,3) by (intro range_perm_swap) simp_all
  ultimately show ?thesis by (simp add: pivoted_def)
qed

lemma partitionCmpFunc_spec:
  assumes "cmp_by key cmp" "a \<le> pivot" "pivot < b" "b \<le> length data"
    and "partitionCmpFunc cmp data a b pivot = (d, mid, ap)"
  shows "range_perm data d a b \<and> a \<le> mid \<and> mid < b \<and> pivoted key d a mid b"
proof -
  define data1 where "data1 = swap data a pivot"
  define i where "i = partition_scanI cmp data1 a (a + 1) b"
  define jj where "jj = partition_scanJ cmp data1 a i b"
  have p1: "range_perm data data1 a b"
    unfolding data1_def using assms(2,3,4) by (intro range_perm_swap) simp_all
  have l1: "b \<le> length data1" using assms(4) by (simp add: data1_def)
  have p0: "parted key data1 a (a + 1) b b" by (auto simp: parted_def)
  have ab: "a + 1 \<le> b" using assms(2,3) by simp
  have aa: "a < a + 1" and bb: "b \<le> b" by simp_all
  note s = parted_scans [OF assms(1) aa ab bb p0, folded i_def jj_def]
  have ai: "a < i" using s(1) by simp
  show ?thesis
  proof (cases "jj \<le> i")
    case True
    then have e: "d = swap data1 (jj - 1) a" "mid = jj - 1"
      using assms(5)
      unfolding partitionCmpFunc_def Let_def data1_def [symmetric] i_def [symmetric] jj_def [symmetric]
      by auto
    have ji: "jj = i" using True s(2) by simp
    have "range_perm data1 d a b \<and> pivoted key d a mid b"
      unfolding e using ai s(3,4) l1 by (intro partition_finish) (simp_all add: ji)
    then show ?thesis using p1 ai s(3) by (auto simp: e ji intro: range_perm_trans)
  next
    case False
    then have lt: "i < jj" by simp
    let ?d = "swap data1 i (jj - 1)"
    note w = parted_swap [OF ai lt s(3) l1 s(4) s(5) [OF lt] s(6) [OF lt]]
    obtain data2 r where l: "partition_loop cmp ?d a (i + 1) (jj - 1) = (data2, r)"
      by (cases "partition_loop cmp ?d a (i + 1) (jj - 1)")
    then have e: "d = swap data2 (r - 1) a" "mid = r - 1"
      using assms(5) False
      unfolding partitionCmpFunc_def Let_def data1_def [symmetric] i_def [symmetric] jj_def [symmetric]
      by auto
    have ls: "range_perm ?d data2 (a + 1) b \<and> i + 1 \<le> r \<and> r \<le> jj - 1 \<and> parted key data2 a r r b"
    proof (rule partition_loop_spec [OF assms(1) _ w(1) _ _ w(2) l])
      show "a < i + 1" using ai by simp
      show "jj - 1 \<le> b" using s(3) by simp
      show "b \<le> length ?d" using l1 by simp
    qed
    then have l2: "length data2 = length data1" by (auto dest: range_perm_length)
    have r: "a < r" "r \<le> b" using ls ai s(3) by linarith+
    have f: "range_perm data2 d a b \<and> pivoted key d a mid b"
      unfolding e using r l1 ls by (intro partition_finish) (simp_all add: l2)
    have "range_perm data1 ?d a b"
      using w(3) ab l1 by (intro range_perm_mono [of data1 ?d "a + 1" b a b]) simp_all
    moreover have "range_perm ?d data2 a b"
      using ls ab l1 by (intro range_perm_mono [of ?d data2 "a + 1" b a b]) simp_all
    ultimately have "range_perm data d a b"
      using p1 f by (blast intro: range_perm_trans)
    then show ?thesis using f r by (auto simp: e)
  qed
qed

text \<open>
  The same for \<^verbatim>\<open>partitionEqualCmpFunc\<close>, which puts the elements that are not above
  the pivot before those that are.
\<close>

definition eparted :: "('a \<Rightarrow> 'k::linorder) \<Rightarrow> 'a list \<Rightarrow> nat \<Rightarrow> nat \<Rightarrow> nat \<Rightarrow> nat \<Rightarrow> bool" where
  "eparted key data a i jj b =
     ((\<forall>k. a < k \<and> k < i \<longrightarrow> key (data ! k) \<le> key (data ! a))
      \<and> (\<forall>k. jj \<le> k \<and> k < b \<longrightarrow> key (data ! a) < key (data ! k)))"

lemma partitionEqual_scanI_le: "i \<le> jj \<Longrightarrow> partitionEqual_scanI cmp data a i jj \<le> jj"
  by (induction cmp data a i jj rule: partitionEqual_scanI.induct)
     (subst partitionEqual_scanI.simps, auto)

lemma partitionEqual_scanJ_ge: "i \<le> jj \<Longrightarrow> i \<le> partitionEqual_scanJ cmp data a i jj"
  by (induction cmp data a i jj rule: partitionEqual_scanJ.induct)
     (subst partitionEqual_scanJ.simps, auto)

lemma partitionEqual_scanI_spec:
  "cmp_by key cmp \<Longrightarrow> i \<le> jj \<Longrightarrow>
     (\<forall>k. i \<le> k \<and> k < partitionEqual_scanI cmp data a i jj \<longrightarrow> key (data ! k) \<le> key (data ! a))
     \<and> (partitionEqual_scanI cmp data a i jj < jj \<longrightarrow>
          key (data ! a) < key (data ! partitionEqual_scanI cmp data a i jj))"
proof (induction cmp data a i jj rule: partitionEqual_scanI.induct)
  case (1 cmp data a i jj)
  show ?case
  proof (cases "i < jj \<and> \<not> cmp (data ! a) (data ! i) < 0")
    case True
    define r where "r = partitionEqual_scanI cmp data a (i + 1) jj"
    have e: "partitionEqual_scanI cmp data a i jj = r"
      using True unfolding r_def by (subst partitionEqual_scanI.simps) simp
    have ih: "(\<forall>k. i + 1 \<le> k \<and> k < r \<longrightarrow> key (data ! k) \<le> key (data ! a))
               \<and> (r < jj \<longrightarrow> key (data ! a) < key (data ! r))"
      unfolding r_def using True "1.prems" by (intro "1.IH") auto
    have le: "key (data ! i) \<le> key (data ! a)"
      using True "1.prems"(1) by (simp add: cmp_byD not_less)
    have "key (data ! k) \<le> key (data ! a)" if "i \<le> k" "k < r" for k
    proof (cases "k = i")
      case True
      then show ?thesis using le by simp
    next
      case False
      then have "i + 1 \<le> k" using that by simp
      then show ?thesis using ih that by blast
    qed
    then show ?thesis unfolding e using ih by blast
  next
    case False
    then have e: "partitionEqual_scanI cmp data a i jj = i"
      by (subst partitionEqual_scanI.simps) auto
    show ?thesis unfolding e using False "1.prems" by (auto simp: cmp_byD not_less)
  qed
qed

lemma partitionEqual_scanJ_spec:
  "cmp_by key cmp \<Longrightarrow> i \<le> jj \<Longrightarrow>
     (\<forall>k. partitionEqual_scanJ cmp data a i jj \<le> k \<and> k < jj \<longrightarrow> key (data ! a) < key (data ! k))
     \<and> (i < partitionEqual_scanJ cmp data a i jj \<longrightarrow>
          key (data ! (partitionEqual_scanJ cmp data a i jj - 1)) \<le> key (data ! a))"
proof (induction cmp data a i jj rule: partitionEqual_scanJ.induct)
  case (1 cmp data a i jj)
  show ?case
  proof (cases "i < jj \<and> cmp (data ! a) (data ! (jj - 1)) < 0")
    case True
    define r where "r = partitionEqual_scanJ cmp data a i (jj - 1)"
    have e: "partitionEqual_scanJ cmp data a i jj = r"
      using True unfolding r_def by (subst partitionEqual_scanJ.simps) simp
    have ih: "(\<forall>k. r \<le> k \<and> k < jj - 1 \<longrightarrow> key (data ! a) < key (data ! k))
               \<and> (i < r \<longrightarrow> key (data ! (r - 1)) \<le> key (data ! a))"
      unfolding r_def using True "1.prems" by (intro "1.IH") auto
    have lt: "key (data ! a) < key (data ! (jj - 1))"
      using True "1.prems"(1) by (simp add: cmp_byD)
    have "key (data ! a) < key (data ! k)" if "r \<le> k" "k < jj" for k
    proof (cases "k = jj - 1")
      case True
      then show ?thesis using lt by simp
    next
      case False
      then have "k < jj - 1" using that by simp
      then show ?thesis using ih that by blast
    qed
    then show ?thesis unfolding e using ih by blast
  next
    case False
    then have e: "partitionEqual_scanJ cmp data a i jj = jj"
      by (subst partitionEqual_scanJ.simps) auto
    show ?thesis unfolding e using False "1.prems" by (auto simp: cmp_byD not_less)
  qed
qed

lemma eparted_scans:
  assumes "cmp_by key cmp" "a < i" "i \<le> jj" "jj \<le> b" "eparted key data a i jj b"
  defines "i' \<equiv> partitionEqual_scanI cmp data a i jj"
  defines "jj' \<equiv> partitionEqual_scanJ cmp data a i' jj"
  shows "i \<le> i'" "i' \<le> jj'" "jj' \<le> jj" "eparted key data a i' jj' b"
    "i' < jj' \<Longrightarrow> key (data ! a) < key (data ! i')"
    "i' < jj' \<Longrightarrow> key (data ! (jj' - 1)) \<le> key (data ! a)"
proof -
  show 1: "i \<le> i'" by (simp add: i'_def partitionEqual_scanI_ge)
  have 2: "i' \<le> jj" using assms(3) by (simp add: i'_def partitionEqual_scanI_le)
  show 3: "i' \<le> jj'" using 2 by (simp add: jj'_def partitionEqual_scanJ_ge)
  show 4: "jj' \<le> jj" by (simp add: jj'_def partitionEqual_scanJ_le)
  have I: "\<forall>k. i \<le> k \<and> k < i' \<longrightarrow> key (data ! k) \<le> key (data ! a)"
    and I': "i' < jj \<longrightarrow> key (data ! a) < key (data ! i')"
    using partitionEqual_scanI_spec [OF assms(1,3), of data a] by (simp_all add: i'_def)
  have J: "\<forall>k. jj' \<le> k \<and> k < jj \<longrightarrow> key (data ! a) < key (data ! k)"
    and J': "i' < jj' \<longrightarrow> key (data ! (jj' - 1)) \<le> key (data ! a)"
    using partitionEqual_scanJ_spec [OF assms(1) 2, of data a] by (simp_all add: jj'_def)
  have L: "\<forall>k. a < k \<and> k < i \<longrightarrow> key (data ! k) \<le> key (data ! a)"
    and R: "\<forall>k. jj \<le> k \<and> k < b \<longrightarrow> key (data ! a) < key (data ! k)"
    using assms(5) by (simp_all add: eparted_def)
  have "key (data ! k) \<le> key (data ! a)" if "a < k" "k < i'" for k
    using L I that by (cases "k < i") auto
  moreover have "key (data ! a) < key (data ! k)" if "jj' \<le> k" "k < b" for k
    using R J that by (cases "k < jj") auto
  ultimately show "eparted key data a i' jj' b" by (simp add: eparted_def)
  show "key (data ! a) < key (data ! i')" if "i' < jj'" using I' that 4 by simp
  show "key (data ! (jj' - 1)) \<le> key (data ! a)" if "i' < jj'" using J' that by simp
qed

lemma eparted_swap:
  assumes "a < i'" "i' < jj'" "jj' \<le> b" "b \<le> length data" "eparted key data a i' jj' b"
    and "key (data ! a) < key (data ! i')" "key (data ! (jj' - 1)) \<le> key (data ! a)"
  shows "i' + 1 \<le> jj' - 1" "eparted key (swap data i' (jj' - 1)) a (i' + 1) (jj' - 1) b"
    "range_perm data (swap data i' (jj' - 1)) (a + 1) b"
proof -
  let ?d = "swap data i' (jj' - 1)"
  have ne: "i' \<noteq> jj' - 1" using assms(6,7) by auto
  then show lt: "i' + 1 \<le> jj' - 1" using assms(2) by linarith
  have n: "swap data i' (jj' - Suc 0) ! k
             = (if k = jj' - Suc 0 then data ! i' else if k = i' then data ! (jj' - Suc 0) else data ! k)" for k
    using assms(2,3,4) by (simp add: nth_swap)
  have L: "\<forall>k. a < k \<and> k < i' \<longrightarrow> key (data ! k) \<le> key (data ! a)"
    and R: "\<forall>k. jj' \<le> k \<and> k < b \<longrightarrow> key (data ! a) < key (data ! k)"
    using assms(5) by (simp_all add: eparted_def)
  have a: "a \<noteq> i'" "a \<noteq> jj' - Suc 0" using assms(1,2) by linarith+
  have "key (?d ! k) \<le> key (?d ! a)" if "a < k" "k < i' + 1" for k
  proof (cases "k = i'")
    case True
    then show ?thesis using assms(7) ne by (simp add: n a)
  next
    case False
    then have "k < i'" using that by simp
    moreover from this have "k \<noteq> jj' - 1" using lt by linarith
    ultimately show ?thesis using L that False by (simp add: n a)
  qed
  moreover have "key (?d ! a) < key (?d ! k)" if "jj' - 1 \<le> k" "k < b" for k
  proof (cases "k = jj' - 1")
    case True
    then show ?thesis using assms(6) by (simp add: n a)
  next
    case False
    then have "jj' \<le> k" using that by simp
    moreover from this have "k \<noteq> i'" using assms(2) by linarith
    ultimately show ?thesis using R that False by (simp add: n a)
  qed
  ultimately show "eparted key ?d a (i' + 1) (jj' - 1) b" by (simp add: eparted_def)
  show "range_perm data ?d (a + 1) b"
    using assms(1-4) by (intro range_perm_swap) simp_all
qed

lemma partitionEqual_loop_spec:
  "cmp_by key cmp \<Longrightarrow> a < i \<Longrightarrow> i \<le> jj \<Longrightarrow> jj \<le> b \<Longrightarrow> b \<le> length data \<Longrightarrow>
   eparted key data a i jj b \<Longrightarrow> partitionEqual_loop cmp data a i jj = (data', r) \<Longrightarrow>
     range_perm data data' (a + 1) b \<and> i \<le> r \<and> r \<le> jj \<and> eparted key data' a r r b"
proof (induction cmp data a i jj arbitrary: data' r rule: partitionEqual_loop.induct)
  case (1 cmp data a i jj)
  define i' where "i' = partitionEqual_scanI cmp data a i jj"
  define jj' where "jj' = partitionEqual_scanJ cmp data a i' jj"
  note s = eparted_scans [OF "1.prems"(1,2,3,4,6), folded i'_def jj'_def]
  show ?case
  proof (cases "jj' \<le> i'")
    case True
    then have "partitionEqual_loop cmp data a i jj = (data, i')"
      by (subst partitionEqual_loop.simps) (simp add: Let_def i'_def [symmetric] jj'_def [symmetric])
    then have e: "data' = data" "r = i'" using "1.prems"(7) by simp_all
    have "jj' = i'" using True s(2) by simp
    then show ?thesis using s by (simp add: e)
  next
    case False
    then have lt: "i' < jj'" by simp
    let ?d = "swap data i' (jj' - 1)"
    have ai: "a < i'" using "1.prems"(2) s(1) by simp
    have jb: "jj' \<le> b" using s(3) "1.prems"(4) by simp
    note w = eparted_swap [OF ai lt jb "1.prems"(5) s(4) s(5) [OF lt] s(6) [OF lt]]
    have "partitionEqual_loop cmp data a i jj = partitionEqual_loop cmp ?d a (i' + 1) (jj' - 1)"
      using False
      by (subst partitionEqual_loop.simps) (simp add: Let_def i'_def [symmetric] jj'_def [symmetric])
    then have e: "partitionEqual_loop cmp ?d a (i' + 1) (jj' - 1) = (data', r)"
      using "1.prems"(7) by simp
    have ih: "range_perm ?d data' (a + 1) b \<and> i' + 1 \<le> r \<and> r \<le> jj' - 1 \<and> eparted key data' a r r b"
    proof (rule "1.IH" [OF i'_def jj'_def False "1.prems"(1) _ w(1) _ _ w(2) e])
      show "a < i' + 1" using ai by simp
      show "jj' - 1 \<le> b" using jb by simp
      show "b \<le> length ?d" using "1.prems"(5) by simp
    qed
    then show ?thesis using w(3) s(1,3) by (auto intro: range_perm_trans)
  qed
qed

lemma partitionEqualCmpFunc_spec:
  assumes "cmp_by key cmp" "a \<le> pivot" "pivot < b" "b \<le> length data"
    and "partitionEqualCmpFunc cmp data a b pivot = (d, mid)"
  shows "range_perm data d a b \<and> a < mid \<and> mid \<le> b
       \<and> (\<forall>k. a \<le> k \<and> k < mid \<longrightarrow> key (d ! k) \<le> key (data ! pivot))
       \<and> (\<forall>k. mid \<le> k \<and> k < b \<longrightarrow> key (data ! pivot) < key (d ! k))"
proof -
  define data1 where "data1 = swap data a pivot"
  have p1: "range_perm data data1 a b"
    unfolding data1_def using assms(2,3,4) by (intro range_perm_swap) simp_all
  have l1: "b \<le> length data1" using assms(4) by (simp add: data1_def)
  have pv: "data1 ! a = data ! pivot"
    unfolding data1_def using assms(2,3,4) by (simp add: nth_swap)
  have p0: "eparted key data1 a (a + 1) b b" by (auto simp: eparted_def)
  have ab: "a + 1 \<le> b" using assms(2,3) by simp
  have aa: "a < a + 1" and bb: "b \<le> b" by simp_all
  have l: "partitionEqual_loop cmp data1 a (a + 1) b = (d, mid)"
    using assms(5) by (simp add: partitionEqualCmpFunc_def data1_def)
  note ls = partitionEqual_loop_spec [OF assms(1) aa ab bb l1 p0 l]
  then have rp: "range_perm data1 d (a + 1) b" and m: "a + 1 \<le> mid" "mid \<le> b"
    and e: "eparted key d a mid mid b" by simp_all
  have da: "d ! a = data1 ! a" using rp by (intro range_perm_nth_below [of data1 d "a + 1" b]) simp_all
  have "range_perm data1 d a b"
    using rp ab l1 by (intro range_perm_mono [of data1 d "a + 1" b a b]) simp_all
  then have "range_perm data d a b" using p1 by (blast intro: range_perm_trans)
  moreover have "key (d ! k) \<le> key (data ! pivot)" if "a \<le> k" "k < mid" for k
  proof (cases "k = a")
    case True
    then show ?thesis by (simp add: da pv)
  next
    case False
    then have "a < k" using that by simp
    then have "key (d ! k) \<le> key (d ! a)" using e that unfolding eparted_def by blast
    then show ?thesis by (simp add: da pv)
  qed
  moreover have "key (data ! pivot) < key (d ! k)" if "mid \<le> k" "k < b" for k
  proof -
    have "key (d ! a) < key (d ! k)" using e that unfolding eparted_def by blast
    then show ?thesis by (simp add: da pv)
  qed
  ultimately show ?thesis using m by simp
qed

subsection \<open>Heap sort\<close>

text \<open>
  The heap lies in \<open>data[first : first + hi]\<close>; the children of node \<open>i\<close> are the nodes
  \<open>2 * i + 1\<close> and \<open>2 * i + 2\<close>. \<open>heap_from key data first lo hi\<close>: no node from \<open>lo\<close> on
  is below a child of its own. \<open>heap_but key data first lo hi root\<close>: the same but for
  the node \<open>root\<close>, whose children are not above its parent.
\<close>

definition heap_from :: "('a \<Rightarrow> 'k::linorder) \<Rightarrow> 'a list \<Rightarrow> nat \<Rightarrow> nat \<Rightarrow> nat \<Rightarrow> bool" where
  "heap_from key data first lo hi =
     (\<forall>i c. lo \<le> i \<and> (c = 2 * i + 1 \<or> c = 2 * i + 2) \<and> c < hi
        \<longrightarrow> key (data ! (first + c)) \<le> key (data ! (first + i)))"

definition heap_but :: "('a \<Rightarrow> 'k::linorder) \<Rightarrow> 'a list \<Rightarrow> nat \<Rightarrow> nat \<Rightarrow> nat \<Rightarrow> nat \<Rightarrow> bool" where
  "heap_but key data first lo hi root =
     ((\<forall>i c. lo \<le> i \<and> i \<noteq> root \<and> (c = 2 * i + 1 \<or> c = 2 * i + 2) \<and> c < hi
         \<longrightarrow> key (data ! (first + c)) \<le> key (data ! (first + i)))
      \<and> (\<forall>p c. lo \<le> p \<and> (root = 2 * p + 1 \<or> root = 2 * p + 2)
                \<and> (c = 2 * root + 1 \<or> c = 2 * root + 2) \<and> c < hi
         \<longrightarrow> key (data ! (first + c)) \<le> key (data ! (first + p))))"

lemma heap_fromD:
  "heap_from key data first lo hi \<Longrightarrow> lo \<le> i \<Longrightarrow> c = 2 * i + 1 \<or> c = 2 * i + 2 \<Longrightarrow> c < hi \<Longrightarrow>
     key (data ! (first + c)) \<le> key (data ! (first + i))"
  unfolding heap_from_def by blast

lemma heap_butD1:
  "heap_but key data first lo hi root \<Longrightarrow> lo \<le> i \<Longrightarrow> i \<noteq> root \<Longrightarrow>
     c = 2 * i + 1 \<or> c = 2 * i + 2 \<Longrightarrow> c < hi \<Longrightarrow>
     key (data ! (first + c)) \<le> key (data ! (first + i))"
  unfolding heap_but_def by blast

lemma heap_butD2:
  "heap_but key data first lo hi root \<Longrightarrow> lo \<le> p \<Longrightarrow> root = 2 * p + 1 \<or> root = 2 * p + 2 \<Longrightarrow>
     c = 2 * root + 1 \<or> c = 2 * root + 2 \<Longrightarrow> c < hi \<Longrightarrow>
     key (data ! (first + c)) \<le> key (data ! (first + p))"
  unfolding heap_but_def by blast

lemma heap_fromI:
  assumes "\<And>i c. lo \<le> i \<Longrightarrow> c = 2 * i + 1 \<or> c = 2 * i + 2 \<Longrightarrow> c < hi \<Longrightarrow>
             key (data ! (first + c)) \<le> key (data ! (first + i))"
  shows "heap_from key data first lo hi"
  unfolding heap_from_def using assms by blast

lemma heap_butI:
  assumes "\<And>i c. lo \<le> i \<Longrightarrow> i \<noteq> root \<Longrightarrow> c = 2 * i + 1 \<or> c = 2 * i + 2 \<Longrightarrow> c < hi \<Longrightarrow>
             key (data ! (first + c)) \<le> key (data ! (first + i))"
    and "\<And>p c. lo \<le> p \<Longrightarrow> root = 2 * p + 1 \<or> root = 2 * p + 2 \<Longrightarrow>
             c = 2 * root + 1 \<or> c = 2 * root + 2 \<Longrightarrow> c < hi \<Longrightarrow>
             key (data ! (first + c)) \<le> key (data ! (first + p))"
  shows "heap_but key data first lo hi root"
  unfolding heap_but_def using assms by blast

lemma heap_but_sifted:
  assumes "heap_but key data first lo hi root"
    and "\<And>c. c = 2 * root + 1 \<or> c = 2 * root + 2 \<Longrightarrow> c < hi \<Longrightarrow>
           key (data ! (first + c)) \<le> key (data ! (first + root))"
  shows "heap_from key data first lo hi"
proof (rule heap_fromI)
  fix i c assume "lo \<le> i" "c = 2 * i + 1 \<or> c = 2 * i + 2" "c < hi"
  then show "key (data ! (first + c)) \<le> key (data ! (first + i))"
    using assms(2) [of c] heap_butD1 [OF assms(1), of i c] by (cases "i = root") auto
qed

lemma heap_but_swap:
  assumes h: "heap_but key data first lo hi root"
    and c: "c' = 2 * root + 1 \<or> c' = 2 * root + 2" "c' < hi" "first + hi \<le> length data"
    and lo: "lo \<le> root"
    and big: "\<And>c. c = 2 * root + 1 \<or> c = 2 * root + 2 \<Longrightarrow> c < hi \<Longrightarrow>
               key (data ! (first + c)) \<le> key (data ! (first + c'))"
    and lt: "key (data ! (first + root)) < key (data ! (first + c'))"
  shows "heap_but key (swap data (first + root) (first + c')) first lo hi c'"
proof (rule heap_butI)
  let ?d = "swap data (first + root) (first + c')"
  have n: "swap data (first + root) (first + c') ! (first + k)
             = (if k = c' then data ! (first + root) else if k = root then data ! (first + c')
                else data ! (first + k))" for k
  proof -
    have "first + root < length data" "first + c' < length data" using c by linarith+
    then show ?thesis by (auto simp: nth_swap)
  qed
  have rc: "root < c'" "root \<noteq> c'" using c(1) by linarith+
  {
    fix i k assume i: "lo \<le> i" "i \<noteq> c'" "k = 2 * i + 1 \<or> k = 2 * i + 2" "k < hi"
    show "key (?d ! (first + k)) \<le> key (?d ! (first + i))"
    proof (cases "i = root")
      case True
      show ?thesis
      proof (cases "k = c'")
        case True
        then show ?thesis using \<open>i = root\<close> lt rc by (simp add: n)
      next
        case False
        have "k \<noteq> root" using i(3) \<open>i = root\<close> by linarith
        moreover have "key (data ! (first + k)) \<le> key (data ! (first + c'))"
          using i(3,4) \<open>i = root\<close> by (intro big) simp_all
        ultimately show ?thesis using False \<open>i = root\<close> rc by (simp add: n)
      qed
    next
      case False
      have kc: "k \<noteq> c'" using i(3) c(1) False by linarith
      show ?thesis
      proof (cases "k = root")
        case True
        have "key (data ! (first + c')) \<le> key (data ! (first + i))"
          using i(1,3) c(1,2) True by (intro heap_butD2 [OF h]) simp_all
        then show ?thesis using True False i(2) rc by (simp add: n)
      next
        case k: False
        have "key (data ! (first + k)) \<le> key (data ! (first + i))"
          using i False by (intro heap_butD1 [OF h]) simp_all
        then show ?thesis using k kc False i(2) by (simp add: n)
      qed
    qed
  }
  {
    fix p k assume p: "lo \<le> p" "c' = 2 * p + 1 \<or> c' = 2 * p + 2"
      "k = 2 * c' + 1 \<or> k = 2 * c' + 2" "k < hi"
    have pr: "p = root" using p(2) c(1) by linarith
    have k: "k \<noteq> c'" "k \<noteq> root" using p(3) rc by linarith+
    have "key (data ! (first + k)) \<le> key (data ! (first + c'))"
      using p(3,4) lo rc by (intro heap_butD1 [OF h]) simp_all
    then show "key (?d ! (first + k)) \<le> key (?d ! (first + p))"
      using k pr rc by (simp add: n)
  }
qed

lemma siftDownCmpFunc_spec:
  "cmp_by key cmp \<Longrightarrow> lo \<le> root \<Longrightarrow> first + hi \<le> length data \<Longrightarrow>
   heap_but key data first lo hi root \<Longrightarrow>
     heap_from key (siftDownCmpFunc cmp data root hi first) first lo hi
     \<and> range_perm data (siftDownCmpFunc cmp data root hi first) first (first + hi)"
proof (induction cmp data root hi first rule: siftDownCmpFunc.induct)
  case (1 cmp data root hi first)
  define child where "child = 2 * root + 1"
  show ?case
  proof (cases "hi \<le> child")
    case True
    then have e: "siftDownCmpFunc cmp data root hi first = data"
      by (subst siftDownCmpFunc.simps) (simp add: child_def)
    have "heap_from key data first lo hi"
    proof (rule heap_but_sifted [OF "1.prems"(4)])
      fix c assume "c = 2 * root + 1 \<or> c = 2 * root + 2" "c < hi"
      then have False using True unfolding child_def by linarith
      then show "key (data ! (first + c)) \<le> key (data ! (first + root))" ..
    qed
    then show ?thesis by (simp add: e)
  next
    case False
    define c' where "c' = (if child + 1 < hi
                              \<and> cmp (data ! (first + child)) (data ! (first + child + 1)) < 0
                            then child + 1 else child)"
    have c: "c' = 2 * root + 1 \<or> c' = 2 * root + 2" "c' < hi"
      using False by (auto simp: c'_def child_def)
    have big: "key (data ! (first + k)) \<le> key (data ! (first + c'))"
      if "k = 2 * root + 1 \<or> k = 2 * root + 2" "k < hi" for k
    proof (cases "child + 1 < hi \<and> cmp (data ! (first + child)) (data ! (first + child + 1)) < 0")
      case True
      then have "c' = child + 1" by (simp add: c'_def)
      moreover have "key (data ! (first + child)) < key (data ! (first + child + 1))"
        using True "1.prems"(1) by (simp add: cmp_byD)
      ultimately show ?thesis using that by (auto simp: child_def less_imp_le)
    next
      case False
      then have e: "c' = child" by (simp add: c'_def)
      show ?thesis
      proof (cases "k = child")
        case True
        then show ?thesis by (simp add: e)
      next
        case k: False
        then have k2: "k = child + 1" "child + 1 < hi" using that by (simp_all add: child_def)
        then have "\<not> cmp (data ! (first + child)) (data ! (first + child + 1)) < 0" using False by simp
        then have "key (data ! (first + child + 1)) \<le> key (data ! (first + child))"
          using "1.prems"(1) by (simp add: cmp_byD not_less)
        then show ?thesis by (simp add: e k2)
      qed
    qed
    show ?thesis
    proof (cases "cmp (data ! (first + root)) (data ! (first + c')) < 0")
      case n: False
      have e: "siftDownCmpFunc cmp data root hi first = data"
        apply (subst siftDownCmpFunc.simps)
        unfolding Let_def child_def [symmetric] c'_def [symmetric]
        using n False by simp
      have le: "key (data ! (first + c')) \<le> key (data ! (first + root))"
        using n "1.prems"(1) by (simp add: cmp_byD not_less)
      have "heap_from key data first lo hi"
      proof (rule heap_but_sifted [OF "1.prems"(4)])
        fix k assume "k = 2 * root + 1 \<or> k = 2 * root + 2" "k < hi"
        then have "key (data ! (first + k)) \<le> key (data ! (first + c'))" by (rule big)
        then show "key (data ! (first + k)) \<le> key (data ! (first + root))" using le by simp
      qed
      then show ?thesis by (simp add: e)
    next
      case True
      let ?d = "swap data (first + root) (first + c')"
      have e: "siftDownCmpFunc cmp data root hi first = siftDownCmpFunc cmp ?d c' hi first"
        apply (subst siftDownCmpFunc.simps)
        unfolding Let_def child_def [symmetric] c'_def [symmetric]
        using False True by simp
      have lt: "key (data ! (first + root)) < key (data ! (first + c'))"
        using True "1.prems"(1) by (simp add: cmp_byD)
      have hb: "heap_but key ?d first lo hi c'"
        using "1.prems"(4) c "1.prems"(3,2) big lt by (rule heap_but_swap)
      have "\<not> cmp (data ! (first + root)) (data ! (first + c')) < 0 \<Longrightarrow> False" using True by simp
      have ih: "heap_from key (siftDownCmpFunc cmp ?d c' hi first) first lo hi
               \<and> range_perm ?d (siftDownCmpFunc cmp ?d c' hi first) first (first + hi)"
      proof (rule "1.IH" [OF child_def False c'_def _ "1.prems"(1) _ _ hb])
        show "\<not> \<not> cmp (data ! (first + root)) (data ! (first + c')) < 0" using True by simp
        show "lo \<le> c'" using c(1) "1.prems"(2) by linarith
        show "first + hi \<le> length ?d" using "1.prems"(3) by simp
      qed
      have "root < hi" using c by linarith
      then have "range_perm data ?d first (first + hi)"
        using c(2) "1.prems"(3) by (intro range_perm_swap) simp_all
      then show ?thesis using ih by (auto simp: e intro: range_perm_trans)
    qed
  qed
qed

lemma heap_root_max:
  assumes "heap_from key data first 0 hi"
  shows "i < hi \<Longrightarrow> key (data ! (first + i)) \<le> key (data ! first)"
proof (induction i rule: less_induct)
  case (less i)
  show ?case
  proof (cases "i = 0")
    case True
    then show ?thesis by simp
  next
    case False
    define p where "p = (i - 1) div 2"
    have p: "i = 2 * p + 1 \<or> i = 2 * p + 2" "p < i" using False unfolding p_def by presburger+
    have "key (data ! (first + i)) \<le> key (data ! (first + p))"
      using assms p(1) less.prems by (intro heap_fromD [of key data first 0 hi]) simp_all
    also have "\<dots> \<le> key (data ! first)"
      using p(2) less.prems by (intro less.IH) simp_all
    finally show ?thesis .
  qed
qed

lemma heapSort_build_spec:
  "cmp_by key cmp \<Longrightarrow> first + hi \<le> length data \<Longrightarrow> heap_from key data first n hi \<Longrightarrow>
     heap_from key (heapSort_build cmp data hi first n) first 0 hi
     \<and> range_perm data (heapSort_build cmp data hi first n) first (first + hi)"
proof (induction n arbitrary: data)
  case 0
  then show ?case by simp
next
  case (Suc i)
  let ?d = "siftDownCmpFunc cmp data i hi first"
  have "heap_but key data first i hi i"
  proof (rule heap_butI)
    fix j c assume "i \<le> j" "j \<noteq> i" "c = 2 * j + 1 \<or> c = 2 * j + 2" "c < hi"
    then show "key (data ! (first + c)) \<le> key (data ! (first + j))"
      by (intro heap_fromD [OF Suc.prems(3)]) simp_all
  next
    fix p c assume "i \<le> p" "i = 2 * p + 1 \<or> i = 2 * p + 2"
    then have False by linarith
    then show "key (data ! (first + c)) \<le> key (data ! (first + p))" ..
  qed
  then have s: "heap_from key ?d first i hi \<and> range_perm data ?d first (first + hi)"
    using Suc.prems by (intro siftDownCmpFunc_spec) simp_all
  then have l: "length ?d = length data" by (auto dest: range_perm_length)
  have "heap_from key (heapSort_build cmp ?d hi first i) first 0 hi
        \<and> range_perm ?d (heapSort_build cmp ?d hi first i) first (first + hi)"
    using Suc.prems s l by (intro Suc.IH) simp_all
  then show ?case using s by (auto intro: range_perm_trans)
qed

lemma heapSort_pop_spec:
  "cmp_by key cmp \<Longrightarrow> n \<le> hi \<Longrightarrow> first + hi \<le> length data \<Longrightarrow> heap_from key data first 0 n \<Longrightarrow>
   sorted_in key data (first + n) (first + hi) \<Longrightarrow>
   (\<forall>i k. first \<le> i \<and> i < first + n \<and> first + n \<le> k \<and> k < first + hi
      \<longrightarrow> key (data ! i) \<le> key (data ! k)) \<Longrightarrow>
     sorted_in key (heapSort_pop cmp data first n) first (first + hi)
     \<and> range_perm data (heapSort_pop cmp data first n) first (first + hi)"
proof (induction n arbitrary: data)
  case 0
  then show ?case by simp
next
  case (Suc i)
  let ?d1 = "swap data first (first + i)"
  let ?d2 = "siftDownCmpFunc cmp ?d1 0 i first"
  note heap = Suc.prems(4) and srt = Suc.prems(5)
  have cross: "key (data ! x) \<le> key (data ! k)"
    if "first \<le> x" "x < first + Suc i" "first + Suc i \<le> k" "k < first + hi" for x k
    using Suc.prems(6) that by blast
  have len: "first + i < length data" using Suc.prems(2,3) by simp
  have n1: "swap data first (first + i) ! k
              = (if k = first + i then data ! first else if k = first then data ! (first + i)
                 else data ! k)" for k
    using len by (simp add: nth_swap)
  have mx: "key (data ! x) \<le> key (data ! first)" if "first \<le> x" "x < first + Suc i" for x
    using heap_root_max [OF heap, of "x - first"] that by simp
  have hb: "heap_but key ?d1 first 0 i 0"
  proof (rule heap_butI)
    fix j c assume j: "0 \<le> j" "j \<noteq> 0" "c = 2 * j + 1 \<or> c = 2 * j + 2" "c < i"
    have "key (data ! (first + c)) \<le> key (data ! (first + j))"
      using j by (intro heap_fromD [OF heap]) simp_all
    moreover have "first + c \<noteq> first + i" "first + c \<noteq> first" "first + j \<noteq> first + i"
      "first + j \<noteq> first" using j by linarith+
    ultimately show "key (?d1 ! (first + c)) \<le> key (?d1 ! (first + j))"
      by (simp only: n1 if_False)
  next
    fix p c assume "(0::nat) = 2 * p + 1 \<or> 0 = 2 * p + 2"
    then have False by linarith
    then show "key (?d1 ! (first + c)) \<le> key (?d1 ! (first + p))" ..
  qed
  have l1: "first + i \<le> length ?d1" using len by simp
  have s: "heap_from key ?d2 first 0 i" and p12: "range_perm ?d1 ?d2 first (first + i)"
    using siftDownCmpFunc_spec [OF Suc.prems(1) _ l1 hb] by simp_all
  have l2: "length ?d2 = length data" using p12 by (auto dest: range_perm_length)
  have above: "?d2 ! k = ?d1 ! k" if "first + i \<le> k" for k
    using p12 that l1 by (intro range_perm_nth_above [of ?d1 ?d2 first "first + i"]) simp_all
  have srt2: "sorted_in key ?d2 (first + i) (first + hi)"
    unfolding sorted_in_def
  proof (intro allI impI)
    fix x y assume xy: "first + i \<le> x \<and> x \<le> y \<and> y < first + hi"
    show "key (?d2 ! x) \<le> key (?d2 ! y)"
    proof (cases "x = first + i")
      case True
      show ?thesis
      proof (cases "y = x")
        case True
        then show ?thesis by simp
      next
        case False
        then have y: "first + Suc i \<le> y" "y \<noteq> first" "y \<noteq> first + i" using xy True by linarith+
        have "key (data ! first) \<le> key (data ! y)"
          using y xy by (intro cross) simp_all
        then show ?thesis using xy y True by (simp add: above n1)
      qed
    next
      case False
      then have x: "first + Suc i \<le> x" "x \<noteq> first" "y \<noteq> first" "y \<noteq> first + i"
        using xy by linarith+
      have "key (data ! x) \<le> key (data ! y)"
        using srt x xy unfolding sorted_in_def by blast
      then show ?thesis using xy x False by (simp add: above n1)
    qed
  qed
  have cross2: "\<forall>x k. first \<le> x \<and> x < first + i \<and> first + i \<le> k \<and> k < first + hi
                  \<longrightarrow> key (?d2 ! x) \<le> key (?d2 ! k)"
  proof (intro allI impI)
    fix x k assume xk: "first \<le> x \<and> x < first + i \<and> first + i \<le> k \<and> k < first + hi"
    have "\<forall>k. first + i \<le> k \<and> k < first + hi \<longrightarrow> key (?d2 ! x) \<le> key (?d1 ! k)"
    proof (rule range_perm_all [OF p12 l1, where P = "\<lambda>e. \<forall>k. first + i \<le> k \<and> k < first + hi
                                         \<longrightarrow> key e \<le> key (?d1 ! k)"])
      show "first \<le> x" "x < first + i" using xk by simp_all
    next
      fix z assume z: "first \<le> z" "z < first + i"
      have e: "key (?d1 ! z) \<le> key (data ! first)"
      proof (cases "z = first")
        case True
        have "key (data ! (first + i)) \<le> key (data ! first)" by (intro mx) simp_all
        then show ?thesis using True z by (simp add: n1)
      next
        case False
        have "key (data ! z) \<le> key (data ! first)" using z by (intro mx) simp_all
        then show ?thesis using False z by (simp add: n1)
      qed
      show "\<forall>k. first + i \<le> k \<and> k < first + hi \<longrightarrow> key (?d1 ! z) \<le> key (?d1 ! k)"
      proof (intro allI impI)
        fix k assume k: "first + i \<le> k \<and> k < first + hi"
        show "key (?d1 ! z) \<le> key (?d1 ! k)"
        proof (cases "k = first + i")
          case True
          then show ?thesis using e by (simp add: n1)
        next
          case False
          then have k2: "first + Suc i \<le> k" "k \<noteq> first" using k z by linarith+
          have "key (data ! first) \<le> key (data ! k)" using k k2 by (intro cross) simp_all
          then show ?thesis using e False k2 by (simp add: n1)
        qed
      qed
    qed
    then show "key (?d2 ! x) \<le> key (?d2 ! k)" using xk by (simp add: above)
  qed
  have ihi: "i \<le> hi" using Suc.prems(2) by simp
  have l2': "first + hi \<le> length ?d2" using l2 Suc.prems(3) by simp
  note ih = Suc.IH [OF Suc.prems(1) ihi l2' s srt2 cross2]
  have a: "range_perm data ?d1 first (first + hi)"
    using Suc.prems(2,3) by (intro range_perm_swap) simp_all
  have b: "range_perm ?d1 ?d2 first (first + hi)"
    using p12 Suc.prems(2,3)
    by (intro range_perm_mono [of ?d1 ?d2 first "first + i" first "first + hi"]) simp_all
  have e: "heapSort_pop cmp data first (Suc i) = heapSort_pop cmp ?d2 first i" by simp
  have "range_perm data (heapSort_pop cmp ?d2 first i) first (first + hi)"
    by (rule range_perm_trans [OF range_perm_trans [OF a b] ih [THEN conjunct2]])
  then show ?case unfolding e using ih by simp
qed

lemma heapSortCmpFunc_spec:
  assumes "cmp_by key cmp" "a \<le> b" "b \<le> length data"
  shows "sorted_in key (heapSortCmpFunc cmp data a b) a b
       \<and> range_perm data (heapSortCmpFunc cmp data a b) a b"
proof -
  define hi where "hi = b - a"
  define n where "n = (hi - 1) div 2 + 1"
  define d where "d = heapSort_build cmp data hi a n"
  have b: "a + hi = b" using assms(2) by (simp add: hi_def)
  have len: "a + hi \<le> length data" using assms(3) b by simp
  have "heap_from key data a n hi"
  proof (rule heap_fromI)
    fix i c assume "n \<le> i" "c = 2 * i + 1 \<or> c = 2 * i + 2" "c < hi"
    then have False unfolding n_def by presburger
    then show "key (data ! (a + c)) \<le> key (data ! (a + i))" ..
  qed
  then have "heap_from key d a 0 hi \<and> range_perm data d a (a + hi)"
    unfolding d_def using assms(1) len by (intro heapSort_build_spec) simp_all
  then have h: "heap_from key d a 0 hi" and p: "range_perm data d a (a + hi)" by simp_all
  have l: "a + hi \<le> length d" using p len by (simp add: range_perm_length)
  have s: "sorted_in key d (a + hi) (a + hi)" by (rule sorted_in_single) simp
  have c: "\<forall>i k. a \<le> i \<and> i < a + hi \<and> a + hi \<le> k \<and> k < a + hi
             \<longrightarrow> key (d ! i) \<le> key (d ! k)" by auto
  have hh: "hi \<le> hi" by simp
  note heapSort_pop_spec [OF assms(1) hh l h s c]
  moreover have "heapSortCmpFunc cmp data a b = heapSort_pop cmp d a hi"
    unfolding heapSortCmpFunc_def Let_def hi_def [symmetric] n_def [symmetric] d_def [symmetric] ..
  ultimately show ?thesis
    using p unfolding b by (auto intro: range_perm_trans)
qed

subsection \<open>Before the partition\<close>

text \<open>
  \<open>lower key data a b\<close>: the element before the range, when there is one, is not above
  any element of the range. The loop of \<^verbatim>\<open>pdqsortCmpFunc\<close> keeps it so; it is what stops
  the shift to the left in \<^verbatim>\<open>partialInsertionSortCmpFunc\<close>, which does not look at \<open>a\<close>.
\<close>

definition lower :: "('a \<Rightarrow> 'k::linorder) \<Rightarrow> 'a list \<Rightarrow> nat \<Rightarrow> nat \<Rightarrow> bool" where
  "lower key data a b =
     (0 < a \<longrightarrow> (\<forall>k. a \<le> k \<and> k < b \<longrightarrow> key (data ! (a - 1)) \<le> key (data ! k)))"

lemma lower_range_perm:
  assumes "lower key xs a b" "range_perm xs ys a b" "b \<le> length xs"
  shows "lower key ys a b"
  unfolding lower_def
proof (intro impI allI)
  fix k assume a: "0 < a" and k: "a \<le> k \<and> k < b"
  have "ys ! (a - 1) = xs ! (a - 1)"
    using assms(2) a by (intro range_perm_nth_below [of xs ys a b]) simp_all
  moreover have "key (xs ! (a - 1)) \<le> key (ys ! k)"
  proof (rule range_perm_all [OF assms(2,3), where P = "\<lambda>e. key (xs ! (a - 1)) \<le> key e"])
    show "a \<le> k" "k < b" using k by simp_all
  next
    fix j assume "a \<le> j" "j < b"
    then show "key (xs ! (a - 1)) \<le> key (xs ! j)"
      using assms(1) a unfolding lower_def by blast
  qed
  ultimately show "key (ys ! (a - 1)) \<le> key (ys ! k)" by simp
qed

lemma lower_mono: "lower key xs a b \<Longrightarrow> b' \<le> b \<Longrightarrow> lower key xs a b'"
  unfolding lower_def by (meson less_le_trans)

lemma sorted_in_cong:
  assumes "sorted_in key xs a b" "\<And>k. a \<le> k \<Longrightarrow> k < b \<Longrightarrow> ys ! k = xs ! k"
  shows "sorted_in key ys a b"
  unfolding sorted_in_def
proof (intro allI impI)
  fix i j assume ij: "a \<le> i \<and> i \<le> j \<and> j < b"
  then have "ys ! i = xs ! i" "ys ! j = xs ! j" using assms(2) by simp_all
  moreover have "key (xs ! i) \<le> key (xs ! j)" using assms(1) ij unfolding sorted_in_def by blast
  ultimately show "key (ys ! i) \<le> key (ys ! j)" by simp
qed

lemma sorted_in_below:
  assumes "sorted_in key xs a m" "range_perm xs ys m' b" "m \<le> m'"
  shows "sorted_in key ys a m"
proof (rule sorted_in_cong [OF assms(1)])
  fix k assume "a \<le> k" "k < m"
  then show "ys ! k = xs ! k"
    using assms(2,3) by (intro range_perm_nth_below [of xs ys m' b]) simp_all
qed

lemma sorted_in_above:
  assumes "sorted_in key xs m b" "range_perm xs ys a m'" "m' \<le> m" "m' \<le> length xs"
  shows "sorted_in key ys m b"
proof (rule sorted_in_cong [OF assms(1)])
  fix k assume "m \<le> k" "k < b"
  then show "ys ! k = xs ! k"
    using assms(2,3,4) by (intro range_perm_nth_above [of xs ys a m']) simp_all
qed

lemma sorted_in_shorter: "sorted_in key xs a b \<Longrightarrow> b' \<le> b \<Longrightarrow> sorted_in key xs a b'"
  unfolding sorted_in_def by (meson less_le_trans)

lemma sorted_in_snoc:
  assumes "sorted_in key xs a i" "a < i" "key (xs ! (i - 1)) \<le> key (xs ! i)"
  shows "sorted_in key xs a (Suc i)"
proof (rule sorted_in_adjacent)
  fix j assume j: "a < j" "j < Suc i"
  show "key (xs ! (j - 1)) \<le> key (xs ! j)"
  proof (cases "j = i")
    case True
    then show ?thesis using assms(3) by simp
  next
    case False
    then have "a \<le> j - 1" "j - 1 \<le> j" "j < i" using j by linarith+
    then show ?thesis using assms(1) unfolding sorted_in_def by blast
  qed
qed

lemma sorted_in_join:
  assumes "sorted_in key xs a m" "sorted_in key xs m b"
    and "\<And>i j. a \<le> i \<Longrightarrow> i < m \<Longrightarrow> m \<le> j \<Longrightarrow> j < b \<Longrightarrow> key (xs ! i) \<le> key (xs ! j)"
  shows "sorted_in key xs a b"
  unfolding sorted_in_def
proof (intro allI impI)
  fix i j assume ij: "a \<le> i \<and> i \<le> j \<and> j < b"
  consider "j < m" | "m \<le> i" | "i < m" "m \<le> j" by linarith
  then show "key (xs ! i) \<le> key (xs ! j)"
  proof cases
    case 1
    then show ?thesis using assms(1) ij unfolding sorted_in_def by blast
  next
    case 2
    then show ?thesis using assms(2) ij unfolding sorted_in_def by blast
  next
    case 3
    then show ?thesis using assms(3) ij by simp
  qed
qed

text \<open>\<^verbatim>\<open>partialInsertionSortCmpFunc\<close>.\<close>

lemma partialInsertionSort_scan_spec:
  "cmp_by key cmp \<Longrightarrow> a < i \<Longrightarrow> i \<le> b \<Longrightarrow> sorted_in key data a i \<Longrightarrow>
     i \<le> partialInsertionSort_scan cmp data i b \<and> partialInsertionSort_scan cmp data i b \<le> b
     \<and> sorted_in key data a (partialInsertionSort_scan cmp data i b)"
proof (induction cmp data i b rule: partialInsertionSort_scan.induct)
  case (1 cmp data i b)
  show ?case
  proof (cases "i < b \<and> \<not> cmp (data ! i) (data ! (i - 1)) < 0")
    case True
    then have le: "key (data ! (i - 1)) \<le> key (data ! i)"
      using "1.prems"(1) by (simp add: cmp_byD not_less)
    have s: "sorted_in key data a (i + 1)"
      using sorted_in_snoc [OF "1.prems"(4,2) le] by simp
    have i: "i < b" "\<not> cmp (data ! i) (data ! (i - 1)) < 0" using True by simp_all
    have ai: "a < i + 1" "i + 1 \<le> b" using "1.prems"(2) i(1) by simp_all
    note ih = "1.IH" [OF True "1.prems"(1) ai s]
    have "partialInsertionSort_scan cmp data i b = partialInsertionSort_scan cmp data (i + 1) b"
      using True by (subst partialInsertionSort_scan.simps) simp
    then show ?thesis using ih by simp
  next
    case False
    then have "partialInsertionSort_scan cmp data i b = i"
      by (subst partialInsertionSort_scan.simps) auto
    then show ?thesis using "1.prems" by simp
  qed
qed

lemma partialInsertionSort_left_inner:
  "cmp_by key cmp \<Longrightarrow> lower key data a b \<Longrightarrow> a \<le> j \<Longrightarrow> j < b \<Longrightarrow> b \<le> length data \<Longrightarrow>
     partialInsertionSort_left cmp data j = insertionSort_inner cmp data a j"
proof (induction cmp data j rule: partialInsertionSort_left.induct)
  case (1 cmp data j)
  show ?case
  proof (cases "1 \<le> j \<and> cmp (data ! j) (data ! (j - 1)) < 0")
    case True
    then have j: "1 \<le> j" and c: "cmp (data ! j) (data ! (j - 1)) < 0" by simp_all
    have lt: "key (data ! j) < key (data ! (j - 1))" using c "1.prems"(1) by (simp add: cmp_byD)
    have aj: "a < j"
    proof (rule ccontr)
      assume "\<not> a < j"
      then have e: "j = a" using "1.prems"(3) by simp
      then have "0 < a" using j by simp
      then have "key (data ! (a - 1)) \<le> key (data ! a)"
        using "1.prems"(2,4) e unfolding lower_def by blast
      then show False using lt e by simp
    qed
    let ?d = "swap data j (j - 1)"
    have rp: "range_perm data ?d a b"
      using aj "1.prems"(4,5) by (intro range_perm_swap) simp_all
    have lw: "lower key ?d a b"
      using "1.prems"(2) rp "1.prems"(5) by (rule lower_range_perm)
    have nn: "\<not> \<not> cmp (data ! j) (data ! (j - 1)) < 0" using c by simp
    have b: "a \<le> j - 1" "j - 1 < b" "b \<le> length ?d" using aj "1.prems"(4,5) by simp_all
    note ih = "1.IH" [OF j nn "1.prems"(1) lw b]
    have "partialInsertionSort_left cmp data j = partialInsertionSort_left cmp ?d (j - 1)"
      using True by (subst partialInsertionSort_left.simps) simp
    moreover have "insertionSort_inner cmp data a j = insertionSort_inner cmp ?d a (j - 1)"
      using aj c by (subst insertionSort_inner.simps) simp
    ultimately show ?thesis using ih by simp
  next
    case False
    then have "partialInsertionSort_left cmp data j = data"
      by (subst partialInsertionSort_left.simps) auto
    moreover have "insertionSort_inner cmp data a j = data"
      using False by (subst insertionSort_inner.simps) auto
    ultimately show ?thesis by simp
  qed
qed

lemma partialInsertionSort_right_spec:
  "0 < j \<Longrightarrow> j \<le> b \<Longrightarrow> b \<le> length data \<Longrightarrow>
     range_perm data (partialInsertionSort_right cmp data j b) (j - 1) b"
proof (induction cmp data j b rule: partialInsertionSort_right.induct)
  case (1 cmp data j b)
  show ?case
  proof (cases "j < b \<and> cmp (data ! j) (data ! (j - 1)) < 0")
    case True
    then have j: "j < b" and nn: "\<not> \<not> cmp (data ! j) (data ! (j - 1)) < 0" by simp_all
    let ?d = "swap data j (j - 1)"
    have p: "0 < j + 1" "j + 1 \<le> b" "b \<le> length ?d" using j "1.prems"(3) by simp_all
    have ih: "range_perm ?d (partialInsertionSort_right cmp ?d (j + 1) b) j b"
      using "1.IH" [OF j nn p] by simp
    have e: "partialInsertionSort_right cmp data j b = partialInsertionSort_right cmp ?d (j + 1) b"
      using True by (subst partialInsertionSort_right.simps) simp
    have "range_perm data ?d (j - 1) b"
      using "1.prems" j by (intro range_perm_swap) simp_all
    moreover have "range_perm ?d (partialInsertionSort_right cmp ?d (j + 1) b) (j - 1) b"
      using ih j "1.prems"(3)
      by (intro range_perm_mono [of ?d "partialInsertionSort_right cmp ?d (j + 1) b" j b "j - 1" b])
         simp_all
    ultimately show ?thesis unfolding e by (rule range_perm_trans)
  next
    case False
    then have "partialInsertionSort_right cmp data j b = data"
      by (subst partialInsertionSort_right.simps) auto
    then show ?thesis by simp
  qed
qed

lemma partialInsertionSort_steps_spec:
  "cmp_by key cmp \<Longrightarrow> a < i \<Longrightarrow> i \<le> b \<Longrightarrow> b \<le> length data \<Longrightarrow> lower key data a b \<Longrightarrow>
   sorted_in key data a i \<Longrightarrow>
     range_perm data (snd (partialInsertionSort_steps cmp data a b i n)) a b
     \<and> (fst (partialInsertionSort_steps cmp data a b i n)
          \<longrightarrow> sorted_in key (snd (partialInsertionSort_steps cmp data a b i n)) a b)"
proof (induction n arbitrary: data i)
  case 0
  then show ?case by simp
next
  case (Suc n)
  define r where "r = partialInsertionSort_scan cmp data i b"
  have sc: "i \<le> r" "r \<le> b" "sorted_in key data a r"
    using partialInsertionSort_scan_spec [OF Suc.prems(1,2,3,6)] by (simp_all add: r_def)
  show ?case
  proof (cases "r = b \<or> b - a < 50")
    case True
    then have "partialInsertionSort_steps cmp data a b i (Suc n) = (r = b, data)"
      by (auto simp: Let_def r_def [symmetric])
    then show ?thesis using sc(3) by auto
  next
    case False
    then have rb: "r < b" using sc(2) by simp
    have ar: "a < r" using Suc.prems(2) sc(1) by simp
    define data1 where "data1 = swap data r (r - 1)"
    define data2 where "data2 = (if 2 \<le> r - a then partialInsertionSort_left cmp data1 (r - 1)
                                  else data1)"
    define data3 where "data3 = (if 2 \<le> b - r then partialInsertionSort_right cmp data2 (r + 1) b
                                  else data2)"
    have e: "partialInsertionSort_steps cmp data a b i (Suc n)
               = partialInsertionSort_steps cmp data3 a b r n"
      unfolding data3_def data2_def data1_def
      using False by (simp add: Let_def r_def [symmetric])
    have p1: "range_perm data data1 a b"
      unfolding data1_def using ar rb Suc.prems(4) by (intro range_perm_swap) simp_all
    have l1: "length data1 = length data" by (simp add: data1_def)
    have lw1: "lower key data1 a b"
      using Suc.prems(5) p1 Suc.prems(4) by (rule lower_range_perm)
    have s1: "sorted_in key data1 a (r - 1)"
    proof (rule sorted_in_cong)
      show "sorted_in key data a (r - 1)" using sc(3) by (rule sorted_in_shorter) simp
      fix k assume "a \<le> k" "k < r - 1"
      then have "k \<noteq> r" "k \<noteq> r - 1" by linarith+
      then show "data1 ! k = data ! k"
        unfolding data1_def using rb Suc.prems(4) by (simp add: nth_swap)
    qed
    have ps2: "range_perm data1 data2 a r \<and> sorted_in key data2 a r"
    proof (cases "2 \<le> r - a")
        case True
        have rr: "a \<le> r - 1" "r - 1 < b" "b \<le> length data1" using ar rb Suc.prems(4) l1 by simp_all
        have d2: "data2 = insertionSort_inner cmp data1 a (r - 1)"
          using True partialInsertionSort_left_inner [OF Suc.prems(1) lw1 rr]
          by (simp add: data2_def)
        have sh: "shifting key data1 a (r - 1) (r - 1)"
          using s1 by (auto simp: shifting_def sorted_in_single)
        have "r - 1 \<le> r - 1" "r - 1 < length data1" using rr by simp_all
        note insertionSort_inner_spec [OF Suc.prems(1) rr(1) this sh]
        then show ?thesis using ar by (simp add: d2)
    next
      case False
      then have "r \<le> Suc a" by simp
      then have "sorted_in key data1 a r" by (rule sorted_in_single)
      then show ?thesis using False by (simp add: data2_def)
    qed
    then have p2: "range_perm data1 data2 a r" and s2: "sorted_in key data2 a r" by simp_all
    have l2: "length data2 = length data" using p2 l1 by (simp add: range_perm_length)
    have p3: "range_perm data2 data3 r b"
    proof (cases "2 \<le> b - r")
      case True
      have "range_perm data2 (partialInsertionSort_right cmp data2 (r + 1) b) (r + 1 - 1) b"
        using rb Suc.prems(4) l2 by (intro partialInsertionSort_right_spec) simp_all
      then show ?thesis using True by (simp add: data3_def)
    next
      case False
      then show ?thesis by (simp add: data3_def)
    qed
    have l3: "length data3 = length data" using p3 l2 by (simp add: range_perm_length)
    have s3: "sorted_in key data3 a r"
      using s2 p3 by (rule sorted_in_below) simp
    have p12: "range_perm data1 data2 a b"
      using p2 ar rb Suc.prems(4) l1
      by (intro range_perm_mono [of data1 data2 a r a b]) simp_all
    have p23: "range_perm data2 data3 a b"
      using p3 ar rb Suc.prems(4) l2
      by (intro range_perm_mono [of data2 data3 r b a b]) simp_all
    have p13: "range_perm data data3 a b"
      by (rule range_perm_trans [OF range_perm_trans [OF p1 p12] p23])
    have lw3: "lower key data3 a b"
      using Suc.prems(5) p13 Suc.prems(4) by (rule lower_range_perm)
    have b3: "b \<le> length data3" using l3 Suc.prems(4) by simp
    have rb': "r \<le> b" using rb by simp
    note ih = Suc.IH [OF Suc.prems(1) ar rb' b3 lw3 s3]
    have "range_perm data (snd (partialInsertionSort_steps cmp data3 a b r n)) a b"
      by (rule range_perm_trans [OF p13 ih [THEN conjunct1]])
    then show ?thesis unfolding e using ih by simp
  qed
qed

lemma partialInsertionSortCmpFunc_spec:
  assumes "cmp_by key cmp" "a < b" "b \<le> length data" "lower key data a b"
  shows "range_perm data (snd (partialInsertionSortCmpFunc cmp data a b)) a b
       \<and> (fst (partialInsertionSortCmpFunc cmp data a b)
            \<longrightarrow> sorted_in key (snd (partialInsertionSortCmpFunc cmp data a b)) a b)"
proof -
  have "a < a + 1" "a + 1 \<le> b" using assms(2) by simp_all
  moreover have "sorted_in key data a (a + 1)" by (rule sorted_in_single) simp
  ultimately show ?thesis
    unfolding partialInsertionSortCmpFunc_def
    using assms by (intro partialInsertionSort_steps_spec) simp_all
qed

text \<open>\<^verbatim>\<open>breakPatternsCmpFunc\<close> and \<^verbatim>\<open>reverseRangeCmpFunc\<close> swap within the range.\<close>

lemma nextPowerOfTwo_le: "0 < n \<Longrightarrow> nextPowerOfTwo n \<le> 2 * n"
  unfolding nextPowerOfTwo_def
proof (induction n rule: bits_Len.induct)
  case (1 n)
  show ?case
  proof (cases "n div 2 = 0")
    case True
    then have "bits_Len (n div 2) = 0" by (simp add: bits_Len.simps)
    then have "bits_Len n = 1" using "1.prems" by (subst bits_Len.simps) simp
    then show ?thesis using "1.prems" by simp
  next
    case False
    then have "2 ^ bits_Len (n div 2) \<le> 2 * (n div 2)"
      using "1.prems" by (intro "1.IH") simp_all
    moreover have "bits_Len n = Suc (bits_Len (n div 2))"
      using "1.prems" by (subst bits_Len.simps) simp
    ultimately show ?thesis by simp
  qed
qed

lemma breakPatterns_loop_spec:
  "0 < n \<Longrightarrow> 0 < modulus \<Longrightarrow> modulus \<le> 2 * n \<Longrightarrow> a \<le> idx - 1 + i \<Longrightarrow> idx - 1 + i + k \<le> a + n \<Longrightarrow>
   a + n \<le> length data \<Longrightarrow>
     range_perm data (breakPatterns_loop data a n modulus idx random i k) a (a + n)"
proof (induction k arbitrary: data random i)
  case 0
  then show ?case by simp
next
  case (Suc k)
  define random' where "random' = xorshift_Next random"
  define other where "other = unat random' mod modulus"
  define other' where "other' = (if n \<le> other then other - n else other)"
  let ?d = "swap data (idx - 1 + i) (a + other')"
  have om: "other < modulus" using Suc.prems(2) by (simp add: other_def)
  have o: "other' < n"
  proof (cases "n \<le> other")
    case True
    then have "other - n < n" using om Suc.prems(3) by linarith
    then show ?thesis using True by (simp add: other'_def)
  next
    case False
    then show ?thesis by (simp add: other'_def)
  qed
  have p: "range_perm data ?d a (a + n)"
    using Suc.prems(4,5,6) o by (intro range_perm_swap) simp_all
  have "range_perm ?d (breakPatterns_loop ?d a n modulus idx random' (i + 1) k) a (a + n)"
    using Suc.prems by (intro Suc.IH) simp_all
  moreover have "breakPatterns_loop data a n modulus idx random i (Suc k)
                   = breakPatterns_loop ?d a n modulus idx random' (i + 1) k"
    by (simp add: Let_def random'_def other_def other'_def)
  ultimately show ?case using p by (simp only: range_perm_trans)
qed

lemma breakPatternsCmpFunc_spec:
  assumes "a \<le> b" "b \<le> length data"
  shows "range_perm data (breakPatternsCmpFunc cmp data a b) a b"
proof (cases "8 \<le> b - a")
  case True
  define n where "n = b - a"
  have b: "a + n = b" using assms(1) by (simp add: n_def)
  have n: "0 < n" "8 \<le> n" using True by (simp_all add: n_def)
  have m: "0 < nextPowerOfTwo n" by (simp add: nextPowerOfTwo_def)
  have q: "2 \<le> n div 4" "(n div 4) * 4 \<le> n" using n by simp_all
  have i: "a \<le> a + (n div 4) * 2 - 1 + 0" "a + (n div 4) * 2 - 1 + 0 + 3 \<le> a + n"
    using q by linarith+
  have "range_perm data
          (breakPatterns_loop data a n (nextPowerOfTwo n) (a + (n div 4) * 2) (word_of_nat n) 0 3)
          a (a + n)"
    using n(1) m nextPowerOfTwo_le [OF n(1)] i assms(2) b
    by (intro breakPatterns_loop_spec) simp_all
  then show ?thesis
    using True unfolding breakPatternsCmpFunc_def Let_def n_def [symmetric] b by simp
next
  case False
  then show ?thesis by (simp add: breakPatternsCmpFunc_def Let_def)
qed

lemma reverseRange_loop_spec:
  "a \<le> i \<Longrightarrow> j < b \<Longrightarrow> b \<le> length data \<Longrightarrow> range_perm data (reverseRange_loop data i j) a b"
proof (induction data i j rule: reverseRange_loop.induct)
  case (1 data i j)
  show ?case
  proof (cases "i < j")
    case True
    let ?d = "swap data i j"
    have "range_perm data ?d a b"
      using True "1.prems" by (intro range_perm_swap) simp_all
    moreover have "range_perm ?d (reverseRange_loop ?d (i + 1) (j - 1)) a b"
      using True "1.prems" by (intro "1.IH") simp_all
    moreover have "reverseRange_loop data i j = reverseRange_loop ?d (i + 1) (j - 1)"
      using True by (subst reverseRange_loop.simps) simp
    ultimately show ?thesis by (simp only: range_perm_trans)
  next
    case False
    then have "reverseRange_loop data i j = data"
      by (subst reverseRange_loop.simps) simp
    then show ?thesis by simp
  qed
qed

lemma reverseRangeCmpFunc_spec:
  assumes "a < b" "b \<le> length data"
  shows "range_perm data (reverseRangeCmpFunc cmp data a b) a b"
  using assms reverseRange_loop_spec [of a a "b - 1" b data]
  by (simp add: reverseRangeCmpFunc_def)

text \<open>The pivot is an index of the range.\<close>

lemma medianCmpFunc_in:
  "fst (medianCmpFunc cmp data x y z s) = x \<or> fst (medianCmpFunc cmp data x y z s) = y
   \<or> fst (medianCmpFunc cmp data x y z s) = z"
  by (simp add: medianCmpFunc_def order2CmpFunc_def)

lemma medianCmpFunc_range:
  assumes "lo \<le> x" "x < hi" "lo \<le> y" "y < hi" "lo \<le> z" "z < hi"
  shows "lo \<le> fst (medianCmpFunc cmp data x y z s) \<and> fst (medianCmpFunc cmp data x y z s) < hi"
  using medianCmpFunc_in [of cmp data x y z s] assms by auto

lemma medianAdjacentCmpFunc_range:
  assumes "lo < x" "x + 1 < hi"
  shows "lo \<le> fst (medianAdjacentCmpFunc cmp data x s)
       \<and> fst (medianAdjacentCmpFunc cmp data x s) < hi"
  unfolding medianAdjacentCmpFunc_def using assms by (intro medianCmpFunc_range) simp_all

lemma choosePivotCmpFunc_range:
  assumes "8 \<le> b - a"
  shows "a \<le> fst (choosePivotCmpFunc cmp data a b) \<and> fst (choosePivotCmpFunc cmp data a b) < b"
proof -
  define q where "q = (b - a) div 4"
  have q: "2 \<le> q" "a + q * 3 + 1 < b" using assms by (simp_all add: q_def)
  obtain i1 s1 where 1:
    "(if 50 \<le> b - a then medianAdjacentCmpFunc cmp data (a + q) 0 else (a + q, 0)) = (i1, s1)"
    by (cases "if 50 \<le> b - a then medianAdjacentCmpFunc cmp data (a + q) 0 else (a + q, 0)")
  obtain j1 s2 where 2:
    "(if 50 \<le> b - a then medianAdjacentCmpFunc cmp data (a + q * 2) s1 else (a + q * 2, s1))
       = (j1, s2)"
    by (cases "if 50 \<le> b - a then medianAdjacentCmpFunc cmp data (a + q * 2) s1
               else (a + q * 2, s1)")
  obtain k1 s3 where 3:
    "(if 50 \<le> b - a then medianAdjacentCmpFunc cmp data (a + q * 3) s2 else (a + q * 3, s2))
       = (k1, s3)"
    by (cases "if 50 \<le> b - a then medianAdjacentCmpFunc cmp data (a + q * 3) s2
               else (a + q * 3, s2)")
  have i1: "a \<le> i1 \<and> i1 < b"
    using 1 medianAdjacentCmpFunc_range [of a "a + q" b cmp data 0] q
    by (auto split: if_splits)
  have j1: "a \<le> j1 \<and> j1 < b"
    using 2 medianAdjacentCmpFunc_range [of a "a + q * 2" b cmp data s1] q
    by (auto split: if_splits)
  have k1: "a \<le> k1 \<and> k1 < b"
    using 3 medianAdjacentCmpFunc_range [of a "a + q * 3" b cmp data s2] q
    by (auto split: if_splits)
  have m: "a \<le> fst (medianCmpFunc cmp data i1 j1 k1 s3) \<and> fst (medianCmpFunc cmp data i1 j1 k1 s3) < b"
    using i1 j1 k1 by (intro medianCmpFunc_range) simp_all
  obtain p s where ms: "medianCmpFunc cmp data i1 j1 k1 s3 = (p, s)"
    by (cases "medianCmpFunc cmp data i1 j1 k1 s3")
  have "fst (choosePivotCmpFunc cmp data a b) = p"
  proof (cases "50 \<le> b - a")
    case True
    then have "medianAdjacentCmpFunc cmp data (a + q) 0 = (i1, s1)"
      "medianAdjacentCmpFunc cmp data (a + q * 2) s1 = (j1, s2)"
      "medianAdjacentCmpFunc cmp data (a + q * 3) s2 = (k1, s3)"
      using 1 2 3 by simp_all
    then show ?thesis
      using assms True unfolding choosePivotCmpFunc_def Let_def q_def [symmetric]
      by (simp add: ms)
  next
    case False
    then have "i1 = a + q" "s1 = 0" "j1 = a + q * 2" "s2 = 0" "k1 = a + q * 3" "s3 = 0"
      using 1 2 3 by simp_all
    then show ?thesis
      using assms False ms unfolding choosePivotCmpFunc_def Let_def q_def [symmetric]
      by simp
  qed
  then show ?thesis using m ms by simp
qed

lemma pdqsort_prepare_unfold:
  "pdqsort_prepare cmp data a b limit wb wp =
     (let data1 = (if \<not> wb then breakPatternsCmpFunc cmp data a b else data);
          limit1 = (if \<not> wb then limit - 1 else limit);
          cp = choosePivotCmpFunc cmp data1 a b;
          data2 = (if snd cp = decreasingHint then reverseRangeCmpFunc cmp data1 a b else data1);
          pivot = (if snd cp = decreasingHint then (b - 1) - (fst cp - a) else fst cp);
          hint = (if snd cp = decreasingHint then increasingHint else snd cp);
          res = (if wb \<and> wp \<and> hint = increasingHint
                 then partialInsertionSortCmpFunc cmp data2 a b else (False, data2))
      in (fst res, snd res, pivot, limit1))"
  by (simp add: pdqsort_prepare_def Let_def split: prod.splits)

lemma pdqsort_prepare_spec:
  assumes "cmp_by key cmp" "12 < b - a" "b \<le> length data" "lower key data a b"
    and "pdqsort_prepare cmp data a b limit wb wp = (sorted', data3, pivot, limit1)"
  shows "range_perm data data3 a b \<and> a \<le> pivot \<and> pivot < b
       \<and> (sorted' \<longrightarrow> sorted_in key data3 a b)"
proof -
  have ab: "a < b" "a \<le> b" "8 \<le> b - a" using assms(2) by simp_all
  define data1 where "data1 = (if \<not> wb then breakPatternsCmpFunc cmp data a b else data)"
  define cp where "cp = choosePivotCmpFunc cmp data1 a b"
  define data2 where "data2 = (if snd cp = decreasingHint then reverseRangeCmpFunc cmp data1 a b
                                else data1)"
  define pivot' where "pivot' = (if snd cp = decreasingHint then (b - 1) - (fst cp - a) else fst cp)"
  define hint where "hint = (if snd cp = decreasingHint then increasingHint else snd cp)"
  define res where "res = (if wb \<and> wp \<and> hint = increasingHint
                            then partialInsertionSortCmpFunc cmp data2 a b else (False, data2))"
  have "pdqsort_prepare cmp data a b limit wb wp
          = (fst res, snd res, pivot', if \<not> wb then limit - 1 else limit)"
    unfolding pdqsort_prepare_unfold Let_def res_def hint_def pivot'_def data2_def cp_def data1_def ..
  then have r: "sorted' = fst res" "data3 = snd res" "pivot = pivot'" using assms(5) by simp_all
  have p1: "range_perm data data1 a b"
    unfolding data1_def using ab(2) assms(3) by (simp add: breakPatternsCmpFunc_spec)
  have len1: "b \<le> length data1" using p1 assms(3) by (simp add: range_perm_length)
  have p0: "a \<le> fst cp \<and> fst cp < b"
    unfolding cp_def by (rule choosePivotCmpFunc_range [OF ab(3)])
  have p2: "range_perm data1 data2 a b"
    unfolding data2_def using ab(1) len1 by (simp add: reverseRangeCmpFunc_spec)
  have len2: "b \<le> length data2" using p2 len1 by (simp add: range_perm_length)
  have p12: "range_perm data data2 a b" using p1 p2 by (rule range_perm_trans)
  have lw2: "lower key data2 a b" using assms(4) p12 assms(3) by (rule lower_range_perm)
  have pv: "a \<le> pivot' \<and> pivot' < b"
  proof (cases "snd cp = decreasingHint")
    case True
    then have "pivot' = (b - 1) - (fst cp - a)" by (simp add: pivot'_def)
    then show ?thesis using p0 ab(1) by linarith
  next
    case False
    then show ?thesis using p0 by (simp add: pivot'_def)
  qed
  have rs: "range_perm data2 (snd res) a b \<and> (fst res \<longrightarrow> sorted_in key (snd res) a b)"
  proof (cases "wb \<and> wp \<and> hint = increasingHint")
    case True
    then have "res = partialInsertionSortCmpFunc cmp data2 a b" by (simp add: res_def)
    then show ?thesis
      using partialInsertionSortCmpFunc_spec [OF assms(1) ab(1) len2 lw2] by simp
  next
    case False
    then have "res = (False, data2)" by (auto simp: res_def)
    then show ?thesis by simp
  qed
  have "range_perm data (snd res) a b"
    by (rule range_perm_trans [OF p12 rs [THEN conjunct1]])
  then show ?thesis using rs pv by (simp add: r)
qed

subsection \<open>The loop of pdqsortCmpFunc\<close>

lemma pivoted_left:
  assumes "pivoted key d a mid b" "range_perm d d' a mid" "mid < b" "b \<le> length d"
  shows "pivoted key d' a mid b"
proof -
  have ml: "mid \<le> length d" using assms(3,4) by simp
  have same: "d' ! k = d ! k" if "mid \<le> k" for k
    using assms(2) that ml by (rule range_perm_nth_above)
  have "key (d' ! k) < key (d ! mid)" if "a \<le> k" "k < mid" for k
  proof (rule range_perm_all [OF assms(2) ml, where P = "\<lambda>e. key e < key (d ! mid)"])
    show "a \<le> k" "k < mid" by fact+
  next
    fix j assume "a \<le> j" "j < mid"
    then show "key (d ! j) < key (d ! mid)" using assms(1) unfolding pivoted_def by blast
  qed
  moreover have "key (d ! mid) \<le> key (d' ! k)" if "mid < k" "k < b" for k
  proof -
    have "key (d ! mid) \<le> key (d ! k)" using assms(1) that unfolding pivoted_def by blast
    then show ?thesis using that same [of k] by simp
  qed
  ultimately show ?thesis using same [of mid] by (simp add: pivoted_def)
qed

lemma pivoted_right:
  assumes "pivoted key d a mid b" "range_perm d d' (mid + 1) b" "b \<le> length d"
  shows "pivoted key d' a mid b"
proof -
  have same: "d' ! k = d ! k" if "k \<le> mid" for k
    using assms(2) that by (intro range_perm_nth_below [of d d' "mid + 1" b]) simp_all
  have "key (d ! mid) \<le> key (d' ! k)" if "mid < k" "k < b" for k
  proof (rule range_perm_all [OF assms(2,3), where P = "\<lambda>e. key (d ! mid) \<le> key e"])
    show "mid + 1 \<le> k" "k < b" using that by simp_all
  next
    fix j assume "mid + 1 \<le> j" "j < b"
    then have "mid < j" by simp
    then show "key (d ! mid) \<le> key (d ! j)"
      using assms(1) \<open>j < b\<close> unfolding pivoted_def by blast
  qed
  moreover have "key (d' ! k) < key (d ! mid)" if "a \<le> k" "k < mid" for k
  proof -
    have "key (d ! k) < key (d ! mid)" using assms(1) that unfolding pivoted_def by blast
    then show ?thesis using that same [of k] by simp
  qed
  ultimately show ?thesis using same [of mid] by (simp add: pivoted_def)
qed

lemma sorted_in_pivot:
  assumes "pivoted key xs a mid b" "sorted_in key xs a mid" "sorted_in key xs (mid + 1) b"
  shows "sorted_in key xs a b"
proof -
  have L: "key (xs ! k) < key (xs ! mid)" if "a \<le> k" "k < mid" for k
    using assms(1) that unfolding pivoted_def by blast
  have R: "key (xs ! mid) \<le> key (xs ! k)" if "mid < k" "k < b" for k
    using assms(1) that unfolding pivoted_def by blast
  have 1: "sorted_in key xs a (mid + 1)"
  proof (rule sorted_in_join [OF assms(2)])
    show "sorted_in key xs mid (mid + 1)" by (rule sorted_in_single) simp
  next
    fix i j assume "a \<le> i" "i < mid" "mid \<le> j" "j < mid + 1"
    then have "j = mid" "key (xs ! i) < key (xs ! mid)" using L by simp_all
    then show "key (xs ! i) \<le> key (xs ! j)" by simp
  qed
  show ?thesis
  proof (rule sorted_in_join [OF 1 assms(3)])
    fix i j assume ij: "a \<le> i" "i < mid + 1" "mid + 1 \<le> j" "j < b"
    have "key (xs ! i) \<le> key (xs ! mid)"
      using L [of i] ij by (cases "i = mid") (simp_all add: less_imp_le)
    also have "\<dots> \<le> key (xs ! j)" using R [of j] ij by simp
    finally show "key (xs ! i) \<le> key (xs ! j)" .
  qed
qed

lemma pivoted_lower: "pivoted key d a mid b \<Longrightarrow> lower key d (mid + 1) b"
  unfolding pivoted_def lower_def by simp

text \<open>
  The range comes out in order and is a rearrangement of itself; nothing outside the
  range is touched.
\<close>

lemma pdqsortCmpFunc_spec:
  "cmp_by key cmp \<Longrightarrow> a \<le> b \<Longrightarrow> b \<le> length data \<Longrightarrow> lower key data a b \<Longrightarrow>
     sorted_in key (pdqsortCmpFunc cmp data a b limit wb wp) a b
     \<and> range_perm data (pdqsortCmpFunc cmp data a b limit wb wp) a b"
proof (induction "b - a" arbitrary: data a b limit wb wp rule: less_induct)
  case less
  note cmp = less.prems(1) and ab = less.prems(2) and len = less.prems(3) and lw = less.prems(4)
  note IH = less.hyps [OF _ cmp]
  show ?case
  proof (cases "b - a \<le> 12")
    case True
    then have "pdqsortCmpFunc cmp data a b limit wb wp = insertionSortCmpFunc cmp data a b"
      by (subst pdqsortCmpFunc.simps) simp
    then show ?thesis using insertionSortCmpFunc_spec [OF cmp len, of a] by simp
  next
    case big: False
    show ?thesis
    proof (cases "limit = 0")
      case True
      then have "pdqsortCmpFunc cmp data a b limit wb wp = heapSortCmpFunc cmp data a b"
        using big by (subst pdqsortCmpFunc.simps) simp
      then show ?thesis using heapSortCmpFunc_spec [OF cmp ab len] by simp
    next
      case lim: False
      obtain sorted' data3 pivot limit1 where
        pr: "pdqsort_prepare cmp data a b limit wb wp = (sorted', data3, pivot, limit1)"
        by (cases "pdqsort_prepare cmp data a b limit wb wp") auto
      have big': "12 < b - a" using big by simp
      note ps = pdqsort_prepare_spec [OF cmp big' len lw pr]
      have p3: "range_perm data data3 a b" and pv: "a \<le> pivot" "pivot < b"
        and srt: "sorted' \<Longrightarrow> sorted_in key data3 a b"
        using ps by simp_all
      have len3: "b \<le> length data3" using p3 len by (simp add: range_perm_length)
      have lw3: "lower key data3 a b" using lw p3 len by (rule lower_range_perm)
      show ?thesis
      proof (cases sorted')
        case True
        then have "pdqsortCmpFunc cmp data a b limit wb wp = data3"
          using big lim by (subst pdqsortCmpFunc.simps) (simp add: pr)
        then show ?thesis using srt [OF True] p3 by simp
      next
        case ns: False
        show ?thesis
        proof (cases "0 < a \<and> \<not> cmp (data3 ! (a - 1)) (data3 ! pivot) < 0")
          case eq: True
          obtain data4 mid where
            pe: "partitionEqualCmpFunc cmp data3 a b pivot = (data4, mid)"
            by (cases "partitionEqualCmpFunc cmp data3 a b pivot")
          define res where "res = pdqsortCmpFunc cmp data4 mid b limit1 wb wp"
          have e: "pdqsortCmpFunc cmp data a b limit wb wp = res"
            using big lim ns eq unfolding res_def
            by (subst pdqsortCmpFunc.simps) (simp add: pr pe)
          note es = partitionEqualCmpFunc_spec [OF cmp pv len3 pe]
          have p4: "range_perm data3 data4 a b" and m: "a < mid" "mid \<le> b"
            and le: "\<And>k. a \<le> k \<Longrightarrow> k < mid \<Longrightarrow> key (data4 ! k) \<le> key (data3 ! pivot)"
            and gt: "\<And>k. mid \<le> k \<Longrightarrow> k < b \<Longrightarrow> key (data3 ! pivot) < key (data4 ! k)"
            using es by simp_all
          have len4: "b \<le> length data4" using p4 len3 by (simp add: range_perm_length)
          have lw4: "lower key data4 a b" using lw3 p4 len3 by (rule lower_range_perm)
          have a0: "0 < a" using eq by simp
          have pk: "key (data3 ! pivot) \<le> key (data3 ! (a - 1))"
            using eq cmp by (simp add: cmp_byD not_less)
          have "data4 ! (a - 1) = data3 ! (a - 1)"
            using p4 a0 by (intro range_perm_nth_below [of data3 data4 a b]) simp_all
          then have ge: "key (data3 ! pivot) \<le> key (data4 ! k)" if "a \<le> k" "k < b" for k
            using lw4 a0 that pk unfolding lower_def by (metis order_trans)
          have lwm: "lower key data4 mid b"
            unfolding lower_def
          proof (intro impI allI)
            fix k assume "0 < mid" "mid \<le> k \<and> k < b"
            then have "key (data3 ! pivot) < key (data4 ! k)" using gt by simp
            moreover have "key (data4 ! (mid - 1)) \<le> key (data3 ! pivot)"
              using m by (intro le) simp_all
            ultimately show "key (data4 ! (mid - 1)) \<le> key (data4 ! k)" by simp
          qed
          have dec: "b - mid < b - a" using m ab by simp
          note ih = IH [OF dec m(2) len4 lwm, of limit1 wb wp, folded res_def]
          have sm: "sorted_in key res mid b" and pm: "range_perm data4 res mid b"
            using ih by simp_all
          have below: "res ! k = data4 ! k" if "k < mid" for k
            using pm that by (rule range_perm_nth_below)
          have s1: "sorted_in key res a mid"
            unfolding sorted_in_def
          proof (intro allI impI)
            fix i j assume ij: "a \<le> i \<and> i \<le> j \<and> j < mid"
            have "key (data4 ! i) \<le> key (data3 ! pivot)" using ij by (intro le) simp_all
            moreover have "key (data3 ! pivot) \<le> key (data4 ! j)"
              using ij m by (intro ge) simp_all
            ultimately show "key (res ! i) \<le> key (res ! j)" using ij by (simp add: below)
          qed
          have up: "key (data3 ! pivot) < key (res ! k)" if "mid \<le> k" "k < b" for k
          proof (rule range_perm_all [OF pm len4, where P = "\<lambda>e. key (data3 ! pivot) < key e"])
            show "mid \<le> k" "k < b" by fact+
          next
            fix j assume "mid \<le> j" "j < b"
            then show "key (data3 ! pivot) < key (data4 ! j)" by (rule gt)
          qed
          have sr: "sorted_in key res a b"
          proof (rule sorted_in_join [OF s1 sm])
            fix i j assume ij: "a \<le> i" "i < mid" "mid \<le> j" "j < b"
            have "key (res ! i) \<le> key (data3 ! pivot)" using ij le [of i] by (simp add: below)
            also have "\<dots> < key (res ! j)" using ij by (intro up)
            finally show "key (res ! i) \<le> key (res ! j)" by simp
          qed
          have "range_perm data4 res a b"
            using pm m len4 by (intro range_perm_mono [of data4 res mid b a b]) simp_all
          then have "range_perm data res a b"
            using p3 p4 by (blast intro: range_perm_trans)
          then show ?thesis using sr by (simp add: e)
        next
          case ne: False
          obtain data4 mid ap where
            pt: "partitionCmpFunc cmp data3 a b pivot = (data4, mid, ap)"
            by (cases "partitionCmpFunc cmp data3 a b pivot") auto
          note ts = partitionCmpFunc_spec [OF cmp pv len3 pt]
          have p4: "range_perm data3 data4 a b" and m: "a \<le> mid" "mid < b"
            and pvt: "pivoted key data4 a mid b"
            using ts by simp_all
          have len4: "b \<le> length data4" using p4 len3 by (simp add: range_perm_length)
          have lw4: "lower key data4 a b" using lw3 p4 len3 by (rule lower_range_perm)
          have p34: "range_perm data data4 a b" using p3 p4 by (rule range_perm_trans)
          have ml: "mid \<le> length data4" "mid + 1 \<le> b" using m len4 by simp_all
          have decL: "mid - a < b - a" and decR: "b - (mid + 1) < b - a" using m by simp_all
          show ?thesis
          proof (cases "mid - a < b - mid")
            case True
            define d5 where "d5 = pdqsortCmpFunc cmp data4 a mid limit1 True True"
            define res where "res = pdqsortCmpFunc cmp d5 (mid + 1) b limit1
                                      ((b - a) div 8 \<le> mid - a) ap"
            have e: "pdqsortCmpFunc cmp data a b limit wb wp = res"
              using big lim ns ne True unfolding res_def d5_def
              by (subst pdqsortCmpFunc.simps) (auto simp: pr pt)
            have lwL: "lower key data4 a mid" using lw4 by (rule lower_mono) (use m in simp)
            note ihL = IH [OF decL m(1) ml(1) lwL, of limit1 True True, folded d5_def]
            have s5: "sorted_in key d5 a mid" and p5: "range_perm data4 d5 a mid"
              using ihL by simp_all
            have len5: "b \<le> length d5" using p5 len4 by (simp add: range_perm_length)
            have pv5: "pivoted key d5 a mid b" using pvt p5 m(2) len4 by (rule pivoted_left)
            have lwR: "lower key d5 (mid + 1) b" using pv5 by (rule pivoted_lower)
            note ihR = IH [OF decR ml(2) len5 lwR, of limit1 "(b - a) div 8 \<le> mid - a" ap,
                           folded res_def]
            have sR: "sorted_in key res (mid + 1) b" and pR: "range_perm d5 res (mid + 1) b"
              using ihR by simp_all
            have pvr: "pivoted key res a mid b" using pv5 pR len5 by (rule pivoted_right)
            have sL: "sorted_in key res a mid" using s5 pR by (rule sorted_in_below) simp
            have sr: "sorted_in key res a b" using pvr sL sR by (rule sorted_in_pivot)
            have "range_perm data4 d5 a b"
              using p5 m len4 by (intro range_perm_mono [of data4 d5 a mid a b]) simp_all
            moreover have "range_perm d5 res a b"
              using pR m len5 by (intro range_perm_mono [of d5 res "mid + 1" b a b]) simp_all
            ultimately have "range_perm data res a b"
              using p34 by (blast intro: range_perm_trans)
            then show ?thesis using sr by (simp add: e)
          next
            case False
            define d5 where "d5 = pdqsortCmpFunc cmp data4 (mid + 1) b limit1 True True"
            define res where "res = pdqsortCmpFunc cmp d5 a mid limit1
                                      ((b - a) div 8 \<le> b - mid) ap"
            have e: "pdqsortCmpFunc cmp data a b limit wb wp = res"
              using big lim ns ne False unfolding res_def d5_def
              by (subst pdqsortCmpFunc.simps) (auto simp: pr pt)
            have lwR: "lower key data4 (mid + 1) b" using pvt by (rule pivoted_lower)
            note ihR = IH [OF decR ml(2) len4 lwR, of limit1 True True, folded d5_def]
            have s5: "sorted_in key d5 (mid + 1) b" and p5: "range_perm data4 d5 (mid + 1) b"
              using ihR by simp_all
            have len5: "length d5 = length data4" using p5 by (rule range_perm_length)
            have pv5: "pivoted key d5 a mid b" using pvt p5 len4 by (rule pivoted_right)
            have p5': "range_perm data4 d5 a b"
              using p5 m len4 by (intro range_perm_mono [of data4 d5 "mid + 1" b a b]) simp_all
            have lw5: "lower key d5 a b" using lw4 p5' len4 by (rule lower_range_perm)
            have lwL: "lower key d5 a mid" using lw5 by (rule lower_mono) (use m in simp)
            have ml5: "mid \<le> length d5" using ml(1) len5 by simp
            note ihL = IH [OF decL m(1) ml5 lwL, of limit1 "(b - a) div 8 \<le> b - mid" ap,
                           folded res_def]
            have sL: "sorted_in key res a mid" and pL: "range_perm d5 res a mid"
              using ihL by simp_all
            have b5: "b \<le> length d5" using len4 len5 by simp
            have pvr: "pivoted key res a mid b" using pv5 pL m(2) b5 by (rule pivoted_left)
            have sR: "sorted_in key res (mid + 1) b"
              using s5 pL by (rule sorted_in_above) (use ml5 in simp_all)
            have sr: "sorted_in key res a b" using pvr sL sR by (rule sorted_in_pivot)
            have "range_perm d5 res a b"
              using pL m b5 by (intro range_perm_mono [of d5 res a mid a b]) simp_all
            then have "range_perm data res a b"
              using p34 p5' by (blast intro: range_perm_trans)
            then show ?thesis using sr by (simp add: e)
          qed
        qed
      qed
    qed
  qed
qed

lemma SortFunc_spec:
  assumes "cmp_by key cmp"
  shows "sorted (map key (SortFunc xs cmp)) \<and> mset (SortFunc xs cmp) = mset xs"
proof -
  let ?ys = "SortFunc xs cmp"
  have "lower key xs 0 (length xs)" by (simp add: lower_def)
  then have s: "sorted_in key ?ys 0 (length xs)" and p: "range_perm xs ?ys 0 (length xs)"
    using pdqsortCmpFunc_spec [OF assms, of 0 "length xs" xs "bits_Len (length xs)" True True]
    by (simp_all add: SortFunc_def Let_def)
  have l: "length ?ys = length xs" using p by (rule range_perm_length)
  have "sorted (map key ?ys)" using s sorted_in_whole [of key ?ys] by (simp add: l)
  moreover have "mset ?ys = mset xs" using p by (rule range_perm_mset) simp
  ultimately show ?thesis by simp
qed

section \<open>The order of the occurrences\<close>

text \<open>
  The comparison function of \<^verbatim>\<open>queryEvents\<close> orders the events by the instant they start
  at; the location of the time does not count.
\<close>

lemma cmp_by_start: "cmp_by (\<lambda>e. unixNano (start e)) (\<lambda>a b. Compare (start a) (start b))"
  by (auto simp: cmp_by_def Compare_def Before_def After_def)

text \<open>
  Thirteen occurrences, twelve of which start together: the range is too long for the
  insertion sort, the pivot is the seventh (g), and the partition moves it to the front
  of those that start with it, and the second (b) to the end.
\<close>

lemma cmp_tie_tie: "Compare (start (ex_tie n)) (start (ex_tie m)) = 0"
  by (simp add: ex_tie_def Compare_def Before_def After_def)

lemma cmp_early_tie: "Compare (start ex_early) (start (ex_tie m)) = - 1"
  by (simp add: ex_tie_def ex_early_def Compare_def Before_def After_def Add_def Hour_def
      Minute_def Second_def)

lemma cmp_tie_early: "Compare (start (ex_tie m)) (start ex_early) = 1"
  by (simp add: ex_tie_def ex_early_def Compare_def Before_def After_def Add_def Hour_def
      Minute_def Second_def)

lemma bits_Len_13: "bits_Len 13 = 4"
  by (simp add: bits_Len.simps)

lemma ex_ties_length: "length ex_ties = 13"
  by (simp add: ex_ties_def)

lemma ex_ties_SortFunc: "SortFunc ex_ties cmp = pdqsortCmpFunc cmp ex_ties 0 13 4 True True"
  by (simp add: SortFunc_def ex_ties_length bits_Len_13)

lemma ex_ties_choosePivot:
  "choosePivotCmpFunc (\<lambda>a b. Compare (start a) (start b)) ex_ties 0 13 = (6, increasingHint)"
  by (simp add: choosePivotCmpFunc_def medianCmpFunc_def order2CmpFunc_def ex_ties_def cmp_tie_tie)

lemma partialInsertionSortCmpFunc_first:
  "partialInsertionSortCmpFunc cmp data a b =
     (let i' = partialInsertionSort_scan cmp data (a + 1) b
      in if i' = b then (True, data)
         else if b - a < 50 then (False, data)
         else let data1 = swap data i' (i' - 1);
                  data2 = (if 2 \<le> i' - a then partialInsertionSort_left cmp data1 (i' - 1)
                           else data1);
                  data3 = (if 2 \<le> b - i' then partialInsertionSort_right cmp data2 (i' + 1) b
                           else data2)
              in partialInsertionSort_steps cmp data3 a b i' 4)"
proof -
  have "(5::nat) = Suc 4" by simp
  then show ?thesis
    unfolding partialInsertionSortCmpFunc_def by (simp only: partialInsertionSort_steps.simps)
qed

lemma ex_ties_partialInsertionSort:
  "partialInsertionSortCmpFunc (\<lambda>a b. Compare (start a) (start b)) ex_ties 0 13 = (False, ex_ties)"
proof -
  have "partialInsertionSort_scan (\<lambda>a b. Compare (start a) (start b)) ex_ties 1 13 = 12"
    by (simp add: partialInsertionSort_scan.simps ex_ties_def cmp_tie_tie cmp_early_tie)
  then show ?thesis
    by (simp add: partialInsertionSortCmpFunc_first Let_def)
qed

lemma ex_ties_prepare:
  "pdqsort_prepare (\<lambda>a b. Compare (start a) (start b)) ex_ties 0 13 4 True True
     = (False, ex_ties, 6, 4)"
  by (simp add: pdqsort_prepare_def ex_ties_choosePivot ex_ties_partialInsertionSort)

lemma ex_ties_partition:
  "partitionCmpFunc (\<lambda>a b. Compare (start a) (start b)) ex_ties 0 13 6 = (ex_part, 1, False)"
proof -
  let ?c = "\<lambda>a b. Compare (start a) (start b)"
  let ?d1 = "[ex_tie ''g'', ex_tie ''b'', ex_tie ''c'', ex_tie ''d'', ex_tie ''e'', ex_tie ''f'',
      ex_tie ''a'', ex_tie ''h'', ex_tie ''i'', ex_tie ''j'', ex_tie ''k'', ex_tie ''l'', ex_early]"
  let ?d2 = "[ex_tie ''g'', ex_early, ex_tie ''c'', ex_tie ''d'', ex_tie ''e'', ex_tie ''f'',
      ex_tie ''a'', ex_tie ''h'', ex_tie ''i'', ex_tie ''j'', ex_tie ''k'', ex_tie ''l'', ex_tie ''b'']"
  have d1: "swap ex_ties 0 6 = ?d1"
    by (simp add: swap_def ex_ties_def)
  have i: "partition_scanI ?c ?d1 0 (Suc 0) 13 = Suc 0"
    by (simp add: partition_scanI.simps cmp_tie_tie)
  have j: "partition_scanJ ?c ?d1 0 (Suc 0) 13 = 13"
    by (simp add: partition_scanJ.simps cmp_early_tie)
  have d2: "swap ?d1 (Suc 0) 12 = ?d2"
    by (simp add: swap_def)
  have i2: "partition_scanI ?c ?d2 0 (Suc (Suc 0)) 12 = Suc (Suc 0)"
    by (simp add: partition_scanI.simps cmp_tie_tie)
  have j2: "partition_scanJ ?c ?d2 0 (Suc (Suc 0)) 12 = Suc (Suc 0)"
    by (simp add: partition_scanJ.simps cmp_tie_tie)
  have l: "partition_loop ?c ?d2 0 (Suc (Suc 0)) 12 = (?d2, Suc (Suc 0))"
    by (subst partition_loop.simps) (simp add: i2 j2)
  have d3: "swap ?d2 (Suc 0) 0 = ex_part"
    by (simp add: swap_def ex_part_def)
  show ?thesis
    by (simp add: partitionCmpFunc_def Let_def d1 i j d2 l d3)
qed

lemma pdqsortCmpFunc_one: "pdqsortCmpFunc cmp data 0 (Suc 0) limit wb wp = data"
  by (subst pdqsortCmpFunc.simps)
     (simp add: insertionSortCmpFunc_def insertionSort_outer.simps)

lemma ex_part_rest:
  "pdqsortCmpFunc (\<lambda>a b. Compare (start a) (start b)) ex_part (Suc (Suc 0)) 13 4 True False = ex_part"
proof -
  let ?c = "\<lambda>a b. Compare (start a) (start b)"
  have inner: "insertionSort_inner ?c ex_part 2 j = ex_part" if "j < 13" "2 \<le> j" for j
  proof -
    have "j = 2 \<or> j = 3 \<or> j = 4 \<or> j = 5 \<or> j = 6 \<or> j = 7 \<or> j = 8 \<or> j = 9 \<or> j = 10
            \<or> j = 11 \<or> j = 12" using that by arith
    then show ?thesis
      by (subst insertionSort_inner.simps) (auto simp: ex_part_def cmp_tie_tie)
  qed
  have "insertionSort_outer ?c ex_part 2 13 3 = ex_part"
    by (simp add: insertionSort_outer.simps inner)
  then show ?thesis
    unfolding numeral_2_eq_2 [symmetric]
    by (subst pdqsortCmpFunc.simps) (simp add: insertionSortCmpFunc_def)
qed

lemma ex_ties_sorted: "SortFunc ex_ties (\<lambda>a b. Compare (start a) (start b)) = ex_part"
  apply (simp add: ex_ties_SortFunc)
  apply (subst pdqsortCmpFunc.simps)
  apply (simp add: ex_ties_prepare ex_ties_partition pdqsortCmpFunc_one ex_part_rest)
  done

lemma ex_tie_inject: "(ex_tie n = ex_tie m) = (n = m)"
  by (auto simp: ex_tie_def)

text \<open>
  C5. For every sequence of occurrences, \<^verbatim>\<open>slices.SortFunc\<close> with the comparison of
  \<^verbatim>\<open>queryEvents\<close> returns the same occurrences in ascending order of start, whatever the
  length of the sequence; so the events \<^verbatim>\<open>queryEvents\<close> returns are in that order and
  are what the calendars contributed. A sequence of at most twelve is returned with
  the occurrences that start together in the order they were produced in (it is the
  stable sort of the sequence by start). A sequence that is in ascending order of start
  already is returned as it is, whatever its length, so that sorting twice gives what
  sorting once gives.
\<close>

theorem SortFunc_by_start:
  "sorted (map (\<lambda>e. unixNano (start e)) (SortFunc es (\<lambda>a b. Compare (start a) (start b))))
   \<and> mset (SortFunc es (\<lambda>a b. Compare (start a) (start b))) = mset es
   \<and> (length es \<le> 12 \<longrightarrow>
        SortFunc es (\<lambda>a b. Compare (start a) (start b)) = sort_key (\<lambda>e. unixNano (start e)) es)
   \<and> (sorted (map (\<lambda>e. unixNano (start e)) es) \<longrightarrow>
        SortFunc es (\<lambda>a b. Compare (start a) (start b)) = es)
   \<and> SortFunc (SortFunc es (\<lambda>a b. Compare (start a) (start b))) (\<lambda>a b. Compare (start a) (start b))
       = SortFunc es (\<lambda>a b. Compare (start a) (start b))
   \<and> (\<forall>occs. snd (queryEvents NewRRule QueryCalendar cs wstart wend incl) = Inr occs \<longrightarrow>
         sorted (map (\<lambda>e. unixNano (start e)) occs)
         \<and> mset occs
             = mset (concat (map (calendar_occurrences NewRRule QueryCalendar wstart wend incl) cs)))"
proof -
  let ?cmp = "\<lambda>a b. Compare (start a) (start b)"
  let ?key = "\<lambda>e. unixNano (start e)"
  have se: "sorted (map ?key (SortFunc es ?cmp)) \<and> mset (SortFunc es ?cmp) = mset es"
    by (rule SortFunc_spec [OF cmp_by_start])
  have s: "sorted (map ?key (SortFunc xs ?cmp)) \<and> mset (SortFunc xs ?cmp) = mset xs"
    for xs :: "event list"
    by (rule SortFunc_spec [OF cmp_by_start])
  have ie: "SortFunc es ?cmp = es" if "sorted (map ?key es)"
    using cmp_by_start that by (rule SortFunc_sorted_id)
  have "SortFunc (SortFunc es ?cmp) ?cmp = SortFunc es ?cmp"
    using cmp_by_start se [THEN conjunct1] by (rule SortFunc_sorted_id)
  moreover have "length es \<le> 12 \<longrightarrow> SortFunc es ?cmp = sort_key ?key es"
    using SortFunc_short_stable [OF cmp_by_start, of es] by simp
  ultimately show ?thesis
    using se ie s by (simp add: queryEvents_eq)
qed

text \<open>
  With thirteen occurrences the order of production is lost: of the twelve that start
  together, g comes out first and b last.
\<close>

theorem SortFunc_by_start_counterexample:
  "SortFunc ex_ties (\<lambda>a b. Compare (start a) (start b))
     = [ex_early, ex_tie ''g'', ex_tie ''c'', ex_tie ''d'', ex_tie ''e'', ex_tie ''f'',
        ex_tie ''a'', ex_tie ''h'', ex_tie ''i'', ex_tie ''j'', ex_tie ''k'', ex_tie ''l'',
        ex_tie ''b'']
   \<and> SortFunc ex_ties (\<lambda>a b. Compare (start a) (start b))
       \<noteq> sort_key (\<lambda>e. unixNano (start e)) ex_ties"
proof -
  have "sort_key (\<lambda>e. unixNano (start e)) ex_ties
          = [ex_early, ex_tie ''a'', ex_tie ''b'', ex_tie ''c'', ex_tie ''d'', ex_tie ''e'',
             ex_tie ''f'', ex_tie ''g'', ex_tie ''h'', ex_tie ''i'', ex_tie ''j'', ex_tie ''k'',
             ex_tie ''l'']"
    by (simp add: ex_ties_def ex_tie_def ex_early_def Add_def Hour_def Minute_def Second_def)
  then show ?thesis
    by (simp add: ex_ties_sorted ex_part_def ex_tie_inject)
qed

text \<open>
  Two stand-ups produced in the wrong order come out in order; in order already, they
  come out as they are; and the events of the example server come out in order.
\<close>

theorem SortFunc_by_start_witness:
  "length [ex_occurrence 1, ex_occurrence 0] \<le> 12
   \<and> SortFunc [ex_occurrence 1, ex_occurrence 0] (\<lambda>a b. Compare (start a) (start b))
       = [ex_occurrence 0, ex_occurrence 1]
   \<and> sorted (map (\<lambda>e. unixNano (start e)) [ex_occurrence 0, ex_occurrence 1])
   \<and> SortFunc [ex_occurrence 0, ex_occurrence 1] (\<lambda>a b. Compare (start a) (start b))
       = [ex_occurrence 0, ex_occurrence 1]
   \<and> snd (queryEvents ex_NewRRule ex_QueryCalendar [ex_work, ex_down, ex_home] ex_day ex_wend False)
       = Inr [ex_holiday_occurrence, ex_occurrence 0, ex_occurrence 1, ex_occurrence 2]
   \<and> sorted (map (\<lambda>e. unixNano (start e))
               [ex_holiday_occurrence, ex_occurrence 0, ex_occurrence 1, ex_occurrence 2])"
proof -
  have s: "sorted (map (\<lambda>e. unixNano (start e)) [ex_occurrence 0, ex_occurrence 1])"
    by (simp add: ex_occurrence_def Add_def Hour_def Minute_def Second_def)
  have k: "sort_key (\<lambda>e. unixNano (start e)) [ex_occurrence 1, ex_occurrence 0]
             = [ex_occurrence 0, ex_occurrence 1]"
    by (simp add: ex_occurrence_def Add_def Hour_def Minute_def Second_def)
  have l: "length [ex_occurrence 1, ex_occurrence 0] \<le> 12" by simp
  note th1 = SortFunc_by_start [of "[ex_occurrence 1, ex_occurrence 0]"]
  note th2 = SortFunc_by_start [of "[ex_occurrence 0, ex_occurrence 1]"]
  note th3 = SortFunc_by_start
    [of _ ex_NewRRule ex_QueryCalendar "[ex_work, ex_down, ex_home]" ex_day ex_wend False]
  have a: "SortFunc [ex_occurrence 1, ex_occurrence 0] (\<lambda>a b. Compare (start a) (start b))
             = [ex_occurrence 0, ex_occurrence 1]"
    using th1 l k by simp
  have b: "SortFunc [ex_occurrence 0, ex_occurrence 1] (\<lambda>a b. Compare (start a) (start b))
             = [ex_occurrence 0, ex_occurrence 1]"
    using th2 s by blast
  have q: "snd (queryEvents ex_NewRRule ex_QueryCalendar [ex_work, ex_down, ex_home]
                  ex_day ex_wend False)
             = Inr [ex_holiday_occurrence, ex_occurrence 0, ex_occurrence 1, ex_occurrence 2]"
    by (simp add: ex_queryEvents)
  have c: "sorted (map (\<lambda>e. unixNano (start e))
               [ex_holiday_occurrence, ex_occurrence 0, ex_occurrence 1, ex_occurrence 2])"
    using th3 q by blast
  show ?thesis
    by (intro conjI; fact)
qed

end
